theory Spec2Isabelle
  imports Complex_Main "HOL-Library.Sublist" "HOL-Library.Log_Nat"
begin

section \<open>Market data ingestion and continuity: the backfill service and the collectors\<close>

text \<open>
  A shallow embedding of \<^verbatim>\<open>backend/backfill-service.js\<close>,
  \<^verbatim>\<open>backend/services/polygonDataCollector.js\<close> (both collector classes) and the
  query helper of \<^verbatim>\<open>backend/database.js\<close>.

  Conventions.
  \<^item> A JavaScript \<^verbatim>\<open>Date\<close> is its number of milliseconds since the epoch, an \<open>int\<close>.
    Invalid dates (\<^verbatim>\<open>NaN\<close>) are not modelled.
  \<^item> A JavaScript number is a \<open>rat\<close>, the value of a double. The numbers that the code
    computes (time differences in minutes, the progress of a job) are computed as the
    language does: the exact result, rounded to the nearest double.
  \<^item> A thrown error is a value \<open>JsError code message\<close>; a function that may throw
    returns \<open>js_error + 'a\<close>, with \<open>Inl\<close> the error.
  \<^item> An \<^verbatim>\<open>async\<close> function is run to completion: the model is the sequential
    order of its awaited steps.
\<close>

subsection \<open>Numbers and local time\<close>

text \<open>
  The double nearest to a rational number, ties to the even significand, for numbers within
  the range of normal doubles: \<open>binade x\<close> is the exponent \<open>e\<close> with
  \<open>2\<^sup>e \<le> |x| < 2\<^sup>e\<^sup>+\<^sup>1\<close>, and a double has 53 significant bits. The numbers that this
  program computes are quotients of counts and of time differences, far from overflow and
  underflow.
\<close>

definition pow2 :: "int \<Rightarrow> rat" where
  "pow2 n = (if 0 \<le> n then 2 ^ nat n else 1 / 2 ^ nat (- n))"

definition binade :: "rat \<Rightarrow> int" where
  "binade x =
     (if 1 \<le> \<bar>x\<bar> then int (floorlog 2 (nat \<lfloor>\<bar>x\<bar>\<rfloor>)) - 1
      else - int (floorlog 2 (nat (\<lceil>1 / \<bar>x\<bar>\<rceil> - 1))))"

definition round_even :: "rat \<Rightarrow> int" where
  "round_even x =
     (let f = \<lfloor>x\<rfloor>; d = x - of_int f
      in if d < 1 / 2 then f else if 1 / 2 < d then f + 1 else if even f then f else f + 1)"

definition double_round :: "rat \<Rightarrow> rat" where
  "double_round x =
     (if x = 0 then 0
      else (let ulp = pow2 (binade x - 52) in of_int (round_even (x / ulp)) * ulp))"

text \<open>The operators \<^verbatim>\<open>-\<close>, \<^verbatim>\<open>/\<close> and \<^verbatim>\<open>*\<close> on numbers.\<close>

definition js_sub :: "rat \<Rightarrow> rat \<Rightarrow> rat" where
  "js_sub x y = double_round (x - y)"

definition js_div :: "rat \<Rightarrow> rat \<Rightarrow> rat" where
  "js_div x y = double_round (x / y)"

definition js_mul :: "rat \<Rightarrow> rat \<Rightarrow> rat" where
  "js_mul x y = double_round (x * y)"

text \<open>
  The time zone of the host, as the two conversions of the language: \<open>local_time\<close> takes a
  time value to local time, \<open>utc_time\<close> takes a local time back. \<^verbatim>\<open>setDate\<close> and
  \<^verbatim>\<open>setMinutes\<close> compute in local time: \<^verbatim>\<open>d.setDate(d.getDate() - n)\<close> moves the
  local time back by \<open>n\<close> days of 24 hours and \<^verbatim>\<open>d.setMinutes(d.getMinutes() - n)\<close>
  by \<open>n\<close> minutes, and the result is converted back. On a host in UTC both conversions
  are the identity.
\<close>

record time_zone =
  local_time :: "int \<Rightarrow> int"
  utc_time :: "int \<Rightarrow> int"

definition utc_zone :: time_zone where
  "utc_zone = \<lparr>local_time = (\<lambda>t. t), utc_time = (\<lambda>t. t)\<rparr>"

definition days_before :: "time_zone \<Rightarrow> int \<Rightarrow> int \<Rightarrow> int" where
  "days_before tz n t = utc_time tz (local_time tz t - n * 86400000)"

definition minutes_before :: "time_zone \<Rightarrow> int \<Rightarrow> int \<Rightarrow> int" where
  "minutes_before tz n t = utc_time tz (local_time tz t - n * 60000)"

subsection \<open>Time spans and the granularity of a historical fetch\<close>

datatype timeframe = minute | hour | day | week | month

text \<open>\<^verbatim>\<open>determineTimeframe(startDate, endDate)\<close>: the span in days, compared in order.\<close>

definition determineTimeframe :: "int \<Rightarrow> int \<Rightarrow> timeframe" where
  "determineTimeframe startDate endDate =
     (let diffMs = \<bar>endDate - startDate\<bar>;
          diffDays = (of_int diffMs :: rat) / (1000 * 60 * 60 * 24)
      in if diffDays < 1 then minute
         else if diffDays < 7 then hour
         else if diffDays < 30 then day
         else if diffDays < 365 then week
         else month)"

subsection \<open>Missing periods of one stock\<close>

text \<open>
  One element of \<^verbatim>\<open>missingPeriods\<close>:
  \<^verbatim>\<open>{ stockId, symbol, startTime, endTime }\<close>.
\<close>

record period =
  stockId :: int
  symbol :: string
  startTime :: int
  endTime :: int

text \<open>
  The loop \<^verbatim>\<open>for (let i = 1; i < priceHistory.length; i++)\<close> over consecutive
  timestamps: a pair further apart than the threshold (in minutes) gives the period from one
  minute after the earlier point to one minute before the later one.
\<close>

fun pair_periods :: "rat \<Rightarrow> int \<Rightarrow> string \<Rightarrow> int list \<Rightarrow> period list" where
  "pair_periods gapThresholdMinutes sid symb (prevTimestamp # currTimestamp # rest) =
     (let timeDiffMinutes = js_div (js_sub (of_int currTimestamp) (of_int prevTimestamp)) (1000 * 60)
      in (if timeDiffMinutes > gapThresholdMinutes
          then [\<lparr>stockId = sid, symbol = symb,
                  startTime = prevTimestamp + 60000, endTime = currTimestamp - 60000\<rparr>]
          else [])
         @ pair_periods gapThresholdMinutes sid symb (currTimestamp # rest))"
| "pair_periods gapThresholdMinutes sid symb _ = []"

text \<open>
  The body of the loop over stocks in \<^verbatim>\<open>identifyMissingPeriods\<close>, given the
  timestamps \<^verbatim>\<open>priceHistory\<close> that the query returned: the whole window when there is
  no point; otherwise the periods between points, then the one before the first point, then
  the one after the last point.
\<close>

definition stock_periods :: "rat \<Rightarrow> int \<Rightarrow> int \<Rightarrow> int \<Rightarrow> string \<Rightarrow> int list \<Rightarrow> period list" where
  "stock_periods gapThresholdMinutes winStart winEnd sid symb priceHistory =
     (case priceHistory of
        [] \<Rightarrow> [\<lparr>stockId = sid, symbol = symb, startTime = winStart, endTime = winEnd\<rparr>]
      | firstTimestamp # _ \<Rightarrow>
          (let lastTimestamp = last priceHistory;
               firstTimeDiffMinutes =
                 js_div (js_sub (of_int firstTimestamp) (of_int winStart)) (1000 * 60);
               lastTimeDiffMinutes =
                 js_div (js_sub (of_int winEnd) (of_int lastTimestamp)) (1000 * 60)
           in pair_periods gapThresholdMinutes sid symb priceHistory
              @ (if firstTimeDiffMinutes > gapThresholdMinutes
                 then [\<lparr>stockId = sid, symbol = symb,
                         startTime = winStart, endTime = firstTimestamp - 60000\<rparr>]
                 else [])
              @ (if lastTimeDiffMinutes > gapThresholdMinutes
                 then [\<lparr>stockId = sid, symbol = symb,
                         startTime = lastTimestamp + 60000, endTime = winEnd\<rparr>]
                 else [])))"

subsection \<open>Errors, the pool object and the relational store\<close>

text \<open>
  The \<^verbatim>\<open>code\<close> property of a driver error, as far as the code tests it, and the error
  object itself (\<^verbatim>\<open>error.code\<close>, \<^verbatim>\<open>error.message\<close>).
\<close>

datatype err_code =
  ECONNRESET | PROTOCOL_CONNECTION_LOST | PROTOCOL_ENQUEUE_AFTER_FATAL_ERROR
  | ER_DUP_ENTRY | OTHER_CODE

datatype js_error = JsError (error_code: "err_code option") (error_message: string)

text \<open>
  The code never names a driver type: it asks the pool object which methods it has
  (\<^verbatim>\<open>typeof pool.query === "function"\<close> and so on). A pool object is what those tests
  see. The pool that \<^verbatim>\<open>server.js\<close> hands over with \<^verbatim>\<open>setPool\<close> is made by
  \<^verbatim>\<open>mysql.createPool\<close>: it has \<^verbatim>\<open>query\<close> and \<^verbatim>\<open>getConnection\<close> and no
  \<^verbatim>\<open>execute\<close>.
\<close>

record pool_object =
  has_query :: bool
  has_execute :: bool
  has_getConnection :: bool

definition mysql_pool :: pool_object where
  "mysql_pool = \<lparr>has_query = True, has_execute = False, has_getConnection = True\<rparr>"

datatype source_tag = websocket | rest | collector | column_default

text \<open>
  Rows of \<^verbatim>\<open>price_history\<close> and \<^verbatim>\<open>aggregate_history\<close>, with the columns the
  statements of the code name. \<open>column_default\<close> is the \<^verbatim>\<open>source\<close> of a row inserted
  without one. Timestamps are stored as given, in milliseconds.
\<close>

record history_row =
  row_id :: int
  stock_id :: int
  timestamp :: int
  source :: source_tag
  volume :: rat

record price_row = history_row +
  price :: rat

record aggregate_row = history_row +
  open_price :: rat
  high_price :: rat
  low_price :: rat
  close_price :: rat
  volume_weighted_avg :: "rat option"

text \<open>
  The store. Every round trip to the server is numbered; \<open>faults\<close> says which round trips
  fail, and with which error, so that a run is a function of the store it starts from.

  Modelled from the spec: the table declarations are not among the sources. The spec's data
  model says "at most one row per (instrumentRef, timestamp)", which a table can only enforce
  with a unique key over \<^verbatim>\<open>(stock_id, timestamp)\<close>; \<open>unique_timestamps\<close> says whether
  the two history tables declare that key. The primary key \<^verbatim>\<open>id\<close> is auto-incremented.
\<close>

record database =
  unique_timestamps :: bool
  stocks :: "(int \<times> string) list"
  stocks_next_id :: int
  price_history :: "price_row list"
  price_history_next_id :: int
  aggregate_history :: "aggregate_row list"
  aggregate_history_next_id :: int
  faults :: "nat \<Rightarrow> js_error option"
  round_trips :: nat

type_synonym ('r, 's) action = "'s \<Rightarrow> (js_error + 'r) \<times> 's"

text \<open>One statement sent to the server: the round trip fails, or the statement runs.\<close>

definition run_statement :: "('r, 'a database_scheme) action \<Rightarrow> ('r, 'a database_scheme) action" where
  "run_statement statement db =
     (let db' = db\<lparr>round_trips := Suc (round_trips db)\<rparr>
      in case faults db (round_trips db) of
           Some err \<Rightarrow> (Inl err, db')
         | None \<Rightarrow> statement db')"

text \<open>A round trip that carries no statement of the model (connect, begin, commit).\<close>

definition round_trip :: "(unit, 'a database_scheme) action" where
  "round_trip = run_statement (\<lambda>db. (Inr (), db))"

definition healthy :: "'a database_scheme \<Rightarrow> bool" where
  "healthy db \<longleftrightarrow> (\<forall>n. faults db n = None)"

subsection \<open>The statements of the code\<close>

text \<open>
  \<^verbatim>\<open>SELECT id, symbol FROM stocks\<close>, with \<^verbatim>\<open>WHERE symbol = ?\<close> or
  \<^verbatim>\<open>WHERE symbol IN (...)\<close> when \<^verbatim>\<open>options.symbols\<close> is a non-empty array.
\<close>

definition select_stocks :: "string list option \<Rightarrow> 'a database_scheme \<Rightarrow> (int \<times> string) list" where
  "select_stocks symbols db =
     (case symbols of
        None \<Rightarrow> stocks db
      | Some syms \<Rightarrow>
          if length syms > 0 then filter (\<lambda>stock. snd stock \<in> set syms) (stocks db)
          else stocks db)"

text \<open>\<^verbatim>\<open>SELECT id FROM stocks WHERE symbol = ?\<close>\<close>

definition select_stock_ids :: "string \<Rightarrow> 'a database_scheme \<Rightarrow> int list" where
  "select_stock_ids symb db = map fst (filter (\<lambda>stock. snd stock = symb) (stocks db))"

text \<open>
  \<^verbatim>\<open>SELECT timestamp FROM price_history WHERE stock_id = ? AND timestamp BETWEEN ? AND ?
  ORDER BY timestamp ASC\<close>
\<close>

definition select_timestamps :: "int \<Rightarrow> int \<Rightarrow> int \<Rightarrow> 'a database_scheme \<Rightarrow> int list" where
  "select_timestamps sid winStart winEnd db =
     sort (map timestamp
       (filter (\<lambda>r. stock_id r = sid \<and> winStart \<le> timestamp r \<and> timestamp r \<le> winEnd)
          (price_history db)))"

text \<open>A query only reads.\<close>

definition query :: "('a database_scheme \<Rightarrow> 'r) \<Rightarrow> ('r, 'a database_scheme) action" where
  "query select db = (Inr (select db), db)"

definition same_key :: "int \<Rightarrow> int \<Rightarrow> 'a history_row_scheme \<Rightarrow> bool" where
  "same_key sid ts r \<longleftrightarrow> stock_id r = sid \<and> timestamp r = ts"

definition duplicate_entry :: js_error where
  "duplicate_entry = JsError (Some ER_DUP_ENTRY) ''Duplicate entry''"

text \<open>
  \<^verbatim>\<open>INSERT INTO price_history (stock_id, price, volume, timestamp[, source]) VALUES (...)\<close>:
  the plain insert of the two collectors. Under the unique key a second row with the key of
  an existing one is refused.
\<close>

definition insert_price :: "int \<Rightarrow> rat \<Rightarrow> rat \<Rightarrow> int \<Rightarrow> source_tag \<Rightarrow> (unit, 'a database_scheme) action" where
  "insert_price sid p v ts src db =
     (if unique_timestamps db \<and> (\<exists>r \<in> set (price_history db). same_key sid ts r)
      then (Inl duplicate_entry, db)
      else (Inr (),
            db\<lparr>price_history := price_history db @
                  [\<lparr>row_id = price_history_next_id db, stock_id = sid, timestamp = ts,
                    source = src, volume = v, price = p\<rparr>],
               price_history_next_id := price_history_next_id db + 1\<rparr>))"

text \<open>
  \<^verbatim>\<open>INSERT INTO price_history ... VALUES (?, ?, ?, ?, 'rest')
  ON DUPLICATE KEY UPDATE price = VALUES(price), volume = VALUES(volume)\<close>:
  the insert of backfill. The new row never carries an \<^verbatim>\<open>id\<close>, so the only key it can
  collide on is the unique key, when the table has it.
\<close>

definition upsert_price :: "int \<Rightarrow> rat \<Rightarrow> rat \<Rightarrow> int \<Rightarrow> (unit, 'a database_scheme) action" where
  "upsert_price sid p v ts db =
     (if unique_timestamps db \<and> (\<exists>r \<in> set (price_history db). same_key sid ts r)
      then (Inr (),
            db\<lparr>price_history :=
                  map (\<lambda>r. if same_key sid ts r then r\<lparr>price := p, volume := v\<rparr> else r)
                      (price_history db)\<rparr>)
      else (Inr (),
            db\<lparr>price_history := price_history db @
                  [\<lparr>row_id = price_history_next_id db, stock_id = sid, timestamp = ts,
                    source = rest, volume = v, price = p\<rparr>],
               price_history_next_id := price_history_next_id db + 1\<rparr>))"

text \<open>The same two statements on \<^verbatim>\<open>aggregate_history\<close>.\<close>

definition insert_aggregate ::
  "int \<Rightarrow> rat \<Rightarrow> rat \<Rightarrow> rat \<Rightarrow> rat \<Rightarrow> rat \<Rightarrow> rat option \<Rightarrow> int \<Rightarrow> source_tag
     \<Rightarrow> (unit, 'a database_scheme) action" where
  "insert_aggregate sid opn hi lo cl v vw ts src db =
     (if unique_timestamps db \<and> (\<exists>r \<in> set (aggregate_history db). same_key sid ts r)
      then (Inl duplicate_entry, db)
      else (Inr (),
            db\<lparr>aggregate_history := aggregate_history db @
                  [\<lparr>row_id = aggregate_history_next_id db, stock_id = sid, timestamp = ts,
                    source = src, volume = v, open_price = opn, high_price = hi,
                    low_price = lo, close_price = cl, volume_weighted_avg = vw\<rparr>],
               aggregate_history_next_id := aggregate_history_next_id db + 1\<rparr>))"

definition upsert_aggregate ::
  "int \<Rightarrow> rat \<Rightarrow> rat \<Rightarrow> rat \<Rightarrow> rat \<Rightarrow> rat \<Rightarrow> int \<Rightarrow> (unit, 'a database_scheme) action" where
  "upsert_aggregate sid opn hi lo cl v ts db =
     (if unique_timestamps db \<and> (\<exists>r \<in> set (aggregate_history db). same_key sid ts r)
      then (Inr (),
            db\<lparr>aggregate_history :=
                  map (\<lambda>r. if same_key sid ts r
                            then r\<lparr>open_price := opn, high_price := hi, low_price := lo,
                                   close_price := cl, volume := v\<rparr>
                            else r)
                      (aggregate_history db)\<rparr>)
      else (Inr (),
            db\<lparr>aggregate_history := aggregate_history db @
                  [\<lparr>row_id = aggregate_history_next_id db, stock_id = sid, timestamp = ts,
                    source = rest, volume = v, open_price = opn, high_price = hi,
                    low_price = lo, close_price = cl, volume_weighted_avg = None\<rparr>],
               aggregate_history_next_id := aggregate_history_next_id db + 1\<rparr>))"

subsection \<open>Backfill jobs and the state of the backfill service\<close>

datatype job_status = running | identifying_gaps | processing | completed | failed

text \<open>An element of a job's \<^verbatim>\<open>errors\<close>: \<^verbatim>\<open>{ symbol, startTime, endTime, error }\<close>.\<close>

datatype period_error =
  PeriodError (pe_symbol: string) (pe_startTime: int) (pe_endTime: int) (pe_error: string)

text \<open>
  A job is a plain JavaScript object that \<^verbatim>\<open>updateJobStatus\<close> rebuilds with
  \<^verbatim>\<open>{ ...currentStatus, ...update }\<close>: a finite map from property names to values, merged
  with the update's properties winning. An absent property is \<^verbatim>\<open>undefined\<close>.
\<close>

datatype job_field =
  f_id | f_startedAt | f_status | f_progress | f_missingPeriods | f_processedPeriods
  | f_errors | f_completed | f_totalPeriods | f_completedAt | f_message | f_error

datatype js_value =
  JStr string | JNum int | JBool bool | JDate int | JStatus job_status
  | JPeriods "period list" | JErrors "period_error list"

type_synonym job = "job_field \<rightharpoonup> js_value"

text \<open>
  The module state of \<^verbatim>\<open>backfill-service.js\<close> (\<^verbatim>\<open>pool\<close>, \<^verbatim>\<open>backfillJobs\<close>) on
  top of the store, with the clock that \<^verbatim>\<open>new Date()\<close> reads and the time zone of the
  host. \<open>job_history\<close> is not
  in the code: it records, in order, every value that \<^verbatim>\<open>backfillJobs.set\<close> stores, so
  that properties of all intermediate states of a job can be stated.
\<close>

record world = database +
  pool :: "pool_object option"
  clock :: int
  zone :: time_zone
  backfillJobs :: "string \<rightharpoonup> job"
  job_history :: "(string \<times> job) list"

record options =
  opt_symbols :: "string list option"
  opt_startTime :: "int option"
  opt_endTime :: "int option"
  opt_gapThreshold :: "rat option"
  opt_jobId :: "string option"
  opt_force :: bool

definition sleep :: "int \<Rightarrow> world \<Rightarrow> world" where
  "sleep ms w = w\<lparr>clock := clock w + ms\<rparr>"

subsection \<open>Queries with retries\<close>

definition pool_not_initialized :: js_error where
  "pool_not_initialized = JsError None ''Database pool is not initialized''"

definition unsupported_interface :: js_error where
  "unsupported_interface = JsError None ''Unsupported database pool interface''"

text \<open>The errors that the \<^verbatim>\<open>catch\<close> block of \<^verbatim>\<open>executeQuery\<close> retries.\<close>

definition transient :: "js_error \<Rightarrow> bool" where
  "transient err \<longleftrightarrow>
     error_code err = Some ECONNRESET \<or>
     error_code err = Some PROTOCOL_CONNECTION_LOST \<or>
     error_code err = Some PROTOCOL_ENQUEUE_AFTER_FATAL_ERROR"

text \<open>
  How the \<^verbatim>\<open>try\<close> block of \<^verbatim>\<open>executeQuery\<close> ends: the function returns (with a value,
  or with a promise whose outcome becomes the function's outcome), or an error is thrown
  inside the block and reaches \<^verbatim>\<open>catch\<close>.
\<close>

datatype 'r attempt = Returned "js_error + 'r" | Caught js_error

text \<open>
  The \<^verbatim>\<open>try\<close> block.
  \<^item> With \<^verbatim>\<open>pool.query\<close>: \<^verbatim>\<open>return new Promise(...)\<close>. The promise is returned, not
    awaited, so the function has left the block when the promise rejects: the rejection is the
    function's outcome and never reaches \<^verbatim>\<open>catch\<close>.
  \<^item> With \<^verbatim>\<open>pool.execute\<close> only: \<^verbatim>\<open>await pool.execute(...)\<close>; a rejection is thrown
    inside the block.
  \<^item> Otherwise \<^verbatim>\<open>throw new Error("Unsupported database pool interface")\<close>.
\<close>

definition attempt_query ::
  "pool_object \<Rightarrow> ('r, world) action \<Rightarrow> world \<Rightarrow> 'r attempt \<times> world" where
  "attempt_query p statement w =
     (if has_query p then
        (case run_statement statement w of (outcome, w') \<Rightarrow> (Returned outcome, w'))
      else if has_execute p then
        (case run_statement statement w of
           (Inr results, w') \<Rightarrow> (Returned (Inr results), w')
         | (Inl err, w') \<Rightarrow> (Caught err, w'))
      else (Caught unsupported_interface, w))"

text \<open>\<^verbatim>\<open>executeQuery(query, params = [], retries = 3)\<close> of the backfill service.\<close>

fun executeQuery :: "('r, world) action \<Rightarrow> nat \<Rightarrow> ('r, world) action" where
  "executeQuery statement retries w =
     (case pool w of
        None \<Rightarrow> (Inl pool_not_initialized, w)
      | Some p \<Rightarrow>
          (case attempt_query p statement w of
             (Returned outcome, w') \<Rightarrow> (outcome, w')
           | (Caught err, w') \<Rightarrow>
               if retries > 0 \<and> transient err
               then executeQuery statement (retries - 1) (sleep 1000 w')
               else (Inl err, w')))"

text \<open>
  \<^verbatim>\<open>executeQueryWithRetry(pool, query, params = [], maxRetries = 5)\<close> of
  \<^verbatim>\<open>database.js\<close>. The body of its \<^verbatim>\<open>while (retries <= maxRetries)\<close> loop is
  \<^verbatim>\<open>try { return new Promise(...) } catch (error) { ... retries++ ... }\<close>: the first
  iteration returns the promise, whose rejection cannot reach \<^verbatim>\<open>catch\<close>, so no second
  iteration exists. With \<^verbatim>\<open>maxRetries < 0\<close> the loop is skipped and
  \<^verbatim>\<open>lastError || new Error("Max retries exceeded")\<close> is thrown.
\<close>

definition executeQueryWithRetry ::
  "pool_object option \<Rightarrow> ('r, world) action \<Rightarrow> int \<Rightarrow> ('r, world) action" where
  "executeQueryWithRetry pool_arg statement maxRetries w =
     (case pool_arg of
        None \<Rightarrow> (Inl pool_not_initialized, w)
      | Some p \<Rightarrow>
          if 0 \<le> maxRetries then run_statement statement w
          else (Inl (JsError None ''Max retries exceeded''), w))"

subsection \<open>Gap detection\<close>

text \<open>\<^verbatim>\<open>options.gapThreshold || 15\<close>: an absent or zero threshold is 15 minutes.\<close>

definition gapThresholdMinutes :: "options \<Rightarrow> rat" where
  "gapThresholdMinutes options =
     (case opt_gapThreshold options of
        None \<Rightarrow> 15
      | Some t \<Rightarrow> if t = 0 then 15 else t)"

text \<open>The loop \<^verbatim>\<open>for (const stock of stocks)\<close>: one query per stock, then its periods.\<close>

fun scan_stocks ::
  "options \<Rightarrow> int \<Rightarrow> int \<Rightarrow> (int \<times> string) list \<Rightarrow> period list \<Rightarrow> (period list, world) action" where
  "scan_stocks options winStart winEnd [] missingPeriods w = (Inr missingPeriods, w)"
| "scan_stocks options winStart winEnd (stock # others) missingPeriods w =
     (case executeQuery (query (select_timestamps (fst stock) winStart winEnd)) 3 w of
        (Inl err, w') \<Rightarrow> (Inl err, w')
      | (Inr priceHistory, w') \<Rightarrow>
          scan_stocks options winStart winEnd others
            (missingPeriods @
               stock_periods (gapThresholdMinutes options) winStart winEnd
                 (fst stock) (snd stock) priceHistory)
            w')"

text \<open>
  The window of a run: \<^verbatim>\<open>options.startTime || defaultStartTime\<close> and
  \<^verbatim>\<open>options.endTime || now\<close>, the default start being seven days before now in the
  local time of the host (\<^verbatim>\<open>setDate(getDate() - 7)\<close>).
\<close>

definition window :: "time_zone \<Rightarrow> options \<Rightarrow> int \<Rightarrow> int \<times> int" where
  "window tz options now =
     (let defaultStartTime = days_before tz 7 now
      in ((case opt_startTime options of Some t \<Rightarrow> t | None \<Rightarrow> defaultStartTime),
          (case opt_endTime options of Some t \<Rightarrow> t | None \<Rightarrow> now)))"

text \<open>\<^verbatim>\<open>identifyMissingPeriods(options)\<close>\<close>

definition identifyMissingPeriods :: "options \<Rightarrow> (period list, world) action" where
  "identifyMissingPeriods options w =
     (case executeQuery (query (select_stocks (opt_symbols options))) 3 w of
        (Inl err, w') \<Rightarrow> (Inl err, w')
      | (Inr found, w') \<Rightarrow>
          if found = [] then (Inr [], w')
          else
            (case window (zone w') options (clock w') of
               (winStart, winEnd) \<Rightarrow> scan_stocks options winStart winEnd found [] w'))"

subsection \<open>Job status\<close>

text \<open>Every \<^verbatim>\<open>backfillJobs.set(jobId, value)\<close>.\<close>

definition jobs_set :: "string \<Rightarrow> job \<Rightarrow> world \<Rightarrow> world" where
  "jobs_set jobId value w =
     w\<lparr>backfillJobs := (backfillJobs w)(jobId \<mapsto> value),
       job_history := job_history w @ [(jobId, value)]\<rparr>"

text \<open>
  \<^verbatim>\<open>updateJobStatus(jobId, update)\<close>:
  \<^verbatim>\<open>currentStatus = backfillJobs.get(jobId) || {}\<close>, then the merged object is stored.
\<close>

definition updateJobStatus :: "string \<Rightarrow> job \<Rightarrow> world \<Rightarrow> world" where
  "updateJobStatus jobId update w =
     (let currentStatus = (case backfillJobs w jobId of Some j \<Rightarrow> j | None \<Rightarrow> Map.empty)
      in jobs_set jobId (currentStatus ++ update) w)"

text \<open>
  \<^verbatim>\<open>getBackfillStatus(jobId)\<close>:
  \<^verbatim>\<open>backfillJobs.get(jobId) || { error: "Job not found" }\<close>. A stored job is an object,
  and every object is truthy, so the right operand is returned exactly for an absent key.
\<close>

datatype status_reply = Snapshot job | ErrorObject string

definition getBackfillStatus :: "string \<Rightarrow> world \<Rightarrow> status_reply" where
  "getBackfillStatus jobId w =
     (case backfillJobs w jobId of
        Some j \<Rightarrow> Snapshot j
      | None \<Rightarrow> ErrorObject ''Job not found'')"

subsection \<open>Repairing one period\<close>

text \<open>
  One element of the \<^verbatim>\<open>data\<close> that \<^verbatim>\<open>getHistoricalData\<close> returns:
  \<^verbatim>\<open>{ time, price, open, high, low, volume }\<close>. A property that may be missing
  (or \<^verbatim>\<open>NaN\<close>) is an option.
\<close>

record hist_point =
  p_time :: int
  p_price :: rat
  p_open :: "rat option"
  p_high :: "rat option"
  p_low :: "rat option"
  p_volume :: "rat option"

text \<open>\<^verbatim>\<open>x || d\<close> on numbers: a missing or zero \<open>x\<close> gives \<open>d\<close>.\<close>

definition js_or :: "rat option \<Rightarrow> rat \<Rightarrow> rat" where
  "js_or x d = (case x of None \<Rightarrow> d | Some v \<Rightarrow> if v = 0 then d else v)"

text \<open>
  The upstream provider, as \<^verbatim>\<open>stockService.getHistoricalData\<close> answers for a symbol, a
  granularity and a span: it throws, or returns data points (none when the response or its
  \<^verbatim>\<open>data\<close> is missing or empty). The code passes the two dates formatted as
  \<^verbatim>\<open>YYYY-MM-DD\<close>; the model passes the dates themselves.
\<close>

type_synonym upstream = "string \<Rightarrow> timeframe \<Rightarrow> int \<Rightarrow> int \<Rightarrow> js_error + hist_point list"

text \<open>
  \<^verbatim>\<open>getConnection()\<close>: a connection of the pool when the pool has
  \<^verbatim>\<open>getConnection\<close>, else the pool itself. A pooled connection has \<^verbatim>\<open>query\<close>,
  \<^verbatim>\<open>beginTransaction\<close>, \<^verbatim>\<open>commit\<close>, \<^verbatim>\<open>rollback\<close> and \<^verbatim>\<open>release\<close>; the
  pool itself has no transactions.
\<close>

datatype connection = PooledConnection | ThePool pool_object

definition getConnection :: "(connection, world) action" where
  "getConnection w =
     (case pool w of
        None \<Rightarrow> (Inl pool_not_initialized, w)
      | Some p \<Rightarrow>
          if has_getConnection p then
            (case round_trip w of
               (Inl err, w') \<Rightarrow> (Inl err, w')
             | (Inr _, w') \<Rightarrow> (Inr PooledConnection, w'))
          else (Inr (ThePool p), w))"

definition beginTransaction :: "connection \<Rightarrow> (unit, world) action" where
  "beginTransaction conn w =
     (case conn of PooledConnection \<Rightarrow> round_trip w | ThePool p \<Rightarrow> (Inr (), w))"

definition commitTransaction :: "connection \<Rightarrow> (unit, world) action" where
  "commitTransaction conn w =
     (case conn of PooledConnection \<Rightarrow> round_trip w | ThePool p \<Rightarrow> (Inr (), w))"

text \<open>
  \<^verbatim>\<open>rollbackTransaction(connection)\<close> after a failure: on a pooled connection the rows
  written since \<^verbatim>\<open>beginTransaction\<close> are undone (the outcome of the rollback call itself is
  ignored by the code); on the pool itself nothing is undone.
\<close>

definition rollbackTransaction :: "connection \<Rightarrow> world \<Rightarrow> world \<Rightarrow> world" where
  "rollbackTransaction conn before w =
     (case conn of
        PooledConnection \<Rightarrow>
          w\<lparr>price_history := price_history before,
            aggregate_history := aggregate_history before,
            round_trips := Suc (round_trips w)\<rparr>
      | ThePool p \<Rightarrow> w)"

text \<open>
  A statement on the connection: \<^verbatim>\<open>connection.execute\<close> if it is a function, else
  \<^verbatim>\<open>connection.query\<close>, with the same text.
\<close>

definition run_on :: "connection \<Rightarrow> ('r, world) action \<Rightarrow> ('r, world) action" where
  "run_on conn statement w =
     (case conn of
        PooledConnection \<Rightarrow> run_statement statement w
      | ThePool p \<Rightarrow>
          if has_execute p \<or> has_query p then run_statement statement w
          else (Inl (JsError None ''connection.query is not a function''), w))"

text \<open>
  The loop \<^verbatim>\<open>for (const point of dataPoints)\<close>: the price point always, the aggregate
  bar when the granularity is not \<^verbatim>\<open>minute\<close>.
\<close>

fun write_points :: "connection \<Rightarrow> timeframe \<Rightarrow> int \<Rightarrow> hist_point list \<Rightarrow> (unit, world) action" where
  "write_points conn tf sid [] w = (Inr (), w)"
| "write_points conn tf sid (point # others) w =
     (case run_on conn
             (upsert_price sid (p_price point) (js_or (p_volume point) 0) (p_time point)) w of
        (Inl err, w1) \<Rightarrow> (Inl err, w1)
      | (Inr _, w1) \<Rightarrow>
          (let openPrice = js_or (p_open point) (p_price point);
               highPrice = js_or (p_high point) (p_price point);
               lowPrice = js_or (p_low point) (p_price point);
               closePrice = p_price point
           in if tf \<noteq> minute then
                (case run_on conn
                        (upsert_aggregate sid openPrice highPrice lowPrice closePrice
                           (js_or (p_volume point) 0) (p_time point)) w1 of
                   (Inl err, w2) \<Rightarrow> (Inl err, w2)
                 | (Inr _, w2) \<Rightarrow> write_points conn tf sid others w2)
              else write_points conn tf sid others w1))"

text \<open>The inner \<^verbatim>\<open>try\<close> block after the connection is there: begin, write, commit.\<close>

definition transaction :: "connection \<Rightarrow> timeframe \<Rightarrow> int \<Rightarrow> hist_point list \<Rightarrow> (unit, world) action" where
  "transaction conn tf sid dataPoints w =
     (case beginTransaction conn w of
        (Inl err, w1) \<Rightarrow> (Inl err, w1)
      | (Inr _, w1) \<Rightarrow>
          (case write_points conn tf sid dataPoints w1 of
             (Inl err, w2) \<Rightarrow> (Inl err, w2)
           | (Inr _, w2) \<Rightarrow> commitTransaction conn w2))"

text \<open>\<^verbatim>\<open>backfillPeriod(stockId, symbol, startTime, endTime)\<close>\<close>

definition backfillPeriod ::
  "upstream \<Rightarrow> int \<Rightarrow> string \<Rightarrow> int \<Rightarrow> int \<Rightarrow> (hist_point list, world) action" where
  "backfillPeriod upstream sid symb startT endT w =
     (case pool w of
        None \<Rightarrow> (Inl pool_not_initialized, w)
      | Some p \<Rightarrow>
          (case upstream symb (determineTimeframe startT endT) startT endT of
             Inl err \<Rightarrow> (Inl err, w)
           | Inr dataPoints \<Rightarrow>
               if dataPoints = [] then (Inr [], w)
               else
                 (case getConnection w of
                    (Inl err, w1) \<Rightarrow> (Inl err, w1)
                  | (Inr conn, w1) \<Rightarrow>
                      (case transaction conn (determineTimeframe startT endT) sid dataPoints w1 of
                         (Inl err, w2) \<Rightarrow> (Inl err, rollbackTransaction conn w1 w2)
                       | (Inr _, w2) \<Rightarrow> (Inr dataPoints, w2)))))"

subsection \<open>What a repair that goes through does to a table\<close>

text \<open>
  The upsert of one data point on a table and its id counter, with the update of the row
  and the new row as parameters, and their two instances: the same thing as
  \<open>upsert_price\<close> and \<open>upsert_aggregate\<close> do, on the table alone. A repair in which no
  statement fails folds it over the data points.
\<close>

definition put_row ::
  "bool \<Rightarrow> int \<Rightarrow> (hist_point \<Rightarrow> 'a history_row_scheme \<Rightarrow> 'a history_row_scheme)
     \<Rightarrow> (hist_point \<Rightarrow> int \<Rightarrow> 'a history_row_scheme) \<Rightarrow> hist_point
     \<Rightarrow> 'a history_row_scheme list \<times> int \<Rightarrow> 'a history_row_scheme list \<times> int" where
  "put_row uniq sid upd mk point tbl =
     (if uniq \<and> (\<exists>r \<in> set (fst tbl). same_key sid (p_time point) r)
      then (map (\<lambda>r. if same_key sid (p_time point) r then upd point r else r) (fst tbl), snd tbl)
      else (fst tbl @ [mk point (snd tbl)], snd tbl + 1))"

definition update_price_row :: "hist_point \<Rightarrow> price_row \<Rightarrow> price_row" where
  "update_price_row point r = r\<lparr>price := p_price point, volume := js_or (p_volume point) 0\<rparr>"

definition new_price_row :: "int \<Rightarrow> hist_point \<Rightarrow> int \<Rightarrow> price_row" where
  "new_price_row sid point next_id =
     \<lparr>row_id = next_id, stock_id = sid, timestamp = p_time point, source = rest,
      volume = js_or (p_volume point) 0, price = p_price point\<rparr>"

definition update_aggregate_row :: "hist_point \<Rightarrow> aggregate_row \<Rightarrow> aggregate_row" where
  "update_aggregate_row point r =
     r\<lparr>open_price := js_or (p_open point) (p_price point),
       high_price := js_or (p_high point) (p_price point),
       low_price := js_or (p_low point) (p_price point),
       close_price := p_price point,
       volume := js_or (p_volume point) 0\<rparr>"

definition new_aggregate_row :: "int \<Rightarrow> hist_point \<Rightarrow> int \<Rightarrow> aggregate_row" where
  "new_aggregate_row sid point next_id =
     \<lparr>row_id = next_id, stock_id = sid, timestamp = p_time point, source = rest,
      volume = js_or (p_volume point) 0,
      open_price = js_or (p_open point) (p_price point),
      high_price = js_or (p_high point) (p_price point),
      low_price = js_or (p_low point) (p_price point),
      close_price = p_price point, volume_weighted_avg = None\<rparr>"

text \<open>A connection on which a statement can be sent at all.\<close>

definition usable :: "connection \<Rightarrow> bool" where
  "usable conn = (case conn of PooledConnection \<Rightarrow> True | ThePool p \<Rightarrow> has_execute p \<or> has_query p)"

text \<open>A history table with its auto-increment counter.\<close>

definition price_table :: "'a database_scheme \<Rightarrow> price_row list \<times> int" where
  "price_table db = (price_history db, price_history_next_id db)"

definition aggregate_table :: "'a database_scheme \<Rightarrow> aggregate_row list \<times> int" where
  "aggregate_table db = (aggregate_history db, aggregate_history_next_id db)"

subsection \<open>A backfill run\<close>

text \<open>\<^verbatim>\<open>Math.round\<close>: the nearest integer, halves upwards.\<close>

definition js_round :: "rat \<Rightarrow> int" where
  "js_round x = \<lfloor>x + 1 / 2\<rfloor>"

text \<open>\<^verbatim>\<open>Math.round(((i + 1) / missingPeriods.length) * 100)\<close>\<close>

definition progress_of :: "nat \<Rightarrow> nat \<Rightarrow> int" where
  "progress_of processed totalPeriods =
     js_round (js_mul (js_div (of_nat processed) (of_nat totalPeriods)) 100)"

definition truthy :: "js_value \<Rightarrow> bool" where
  "truthy v = (case v of JStr s \<Rightarrow> s \<noteq> [] | JNum n \<Rightarrow> n \<noteq> 0 | JBool b \<Rightarrow> b | _ \<Rightarrow> True)"

text \<open>
  \<^verbatim>\<open>const errors = backfillJobs.get(jobId).errors || []\<close>, on which
  \<^verbatim>\<open>errors.push\<close> is then called: the job's array, a new array when the property is
  missing or falsy, and a \<^verbatim>\<open>TypeError\<close> when the job is missing or the property is a
  truthy value without \<^verbatim>\<open>push\<close>.
\<close>

definition errors_of :: "job option \<Rightarrow> js_error + period_error list" where
  "errors_of j =
     (case j of
        None \<Rightarrow> Inl (JsError None ''Cannot read properties of undefined'')
      | Some job \<Rightarrow>
          (case job f_errors of
             None \<Rightarrow> Inr []
           | Some (JErrors es) \<Rightarrow> Inr es
           | Some v \<Rightarrow> if truthy v then Inl (JsError None ''errors.push is not a function'')
                       else Inr []))"

text \<open>
  The loop \<^verbatim>\<open>for (let i = 0; i < missingPeriods.length; i++)\<close>, from index \<open>i\<close> on,
  over the periods that are left; \<open>totalPeriods\<close> is \<^verbatim>\<open>missingPeriods.length\<close>. An error of
  \<^verbatim>\<open>backfillPeriod\<close> is caught inside the loop; an error thrown by the \<^verbatim>\<open>catch\<close> block
  itself leaves the loop.
\<close>

fun process_periods :: "upstream \<Rightarrow> string \<Rightarrow> period list \<Rightarrow> nat \<Rightarrow> nat \<Rightarrow> (unit, world) action" where
  "process_periods upstream jobId [] i totalPeriods w = (Inr (), w)"
| "process_periods upstream jobId (period # others) i totalPeriods w =
     (case backfillPeriod upstream (stockId period) (symbol period)
             (startTime period) (endTime period) w of
        (Inr _, w1) \<Rightarrow>
          process_periods upstream jobId others (Suc i) totalPeriods
            (sleep 1000
               (updateJobStatus jobId
                  [f_processedPeriods \<mapsto> JNum (int (Suc i)),
                   f_progress \<mapsto> JNum (progress_of (Suc i) totalPeriods)] w1))
      | (Inl periodError, w1) \<Rightarrow>
          (case errors_of (backfillJobs w1 jobId) of
             Inl err \<Rightarrow> (Inl err, w1)
           | Inr errors \<Rightarrow>
               process_periods upstream jobId others (Suc i) totalPeriods
                 (sleep 1000
                    (updateJobStatus jobId
                       [f_errors \<mapsto> JErrors (errors @
                          [PeriodError (symbol period) (startTime period) (endTime period)
                             (error_message periodError)]),
                        f_processedPeriods \<mapsto> JNum (int (Suc i)),
                        f_progress \<mapsto> JNum (progress_of (Suc i) totalPeriods)] w1))))"

text \<open>The job that \<^verbatim>\<open>performBackfill\<close> stores first.\<close>

definition initial_job :: "string \<Rightarrow> int \<Rightarrow> job" where
  "initial_job jobId now =
     [f_id \<mapsto> JStr jobId, f_startedAt \<mapsto> JDate now, f_status \<mapsto> JStatus running,
      f_progress \<mapsto> JNum 0, f_missingPeriods \<mapsto> JPeriods [], f_processedPeriods \<mapsto> JNum 0,
      f_errors \<mapsto> JErrors [], f_completed \<mapsto> JBool False]"

text \<open>The outer \<^verbatim>\<open>try\<close> block of \<^verbatim>\<open>performBackfill\<close>.\<close>

definition try_backfill :: "upstream \<Rightarrow> string \<Rightarrow> options \<Rightarrow> (unit, world) action" where
  "try_backfill upstream jobId options w0 =
     (case pool w0 of
        None \<Rightarrow> (Inl (JsError None ''Database pool not initialized''), w0)
      | Some p \<Rightarrow>
          (case identifyMissingPeriods options
                  (updateJobStatus jobId [f_status \<mapsto> JStatus identifying_gaps] w0) of
             (Inl err, w2) \<Rightarrow> (Inl err, w2)
           | (Inr missingPeriods, w2) \<Rightarrow>
               (let w3 = updateJobStatus jobId
                           [f_missingPeriods \<mapsto> JPeriods missingPeriods,
                            f_status \<mapsto> JStatus processing,
                            f_totalPeriods \<mapsto> JNum (int (length missingPeriods))] w2
                in if length missingPeriods = 0 then
                     (Inr (),
                      updateJobStatus jobId
                        [f_status \<mapsto> JStatus completed, f_progress \<mapsto> JNum 100,
                         f_completed \<mapsto> JBool True, f_completedAt \<mapsto> JDate (clock w3),
                         f_message \<mapsto> JStr ''No data gaps found that require backfilling''] w3)
                   else
                     (case process_periods upstream jobId missingPeriods 0
                             (length missingPeriods) w3 of
                        (Inl err, w4) \<Rightarrow> (Inl err, w4)
                      | (Inr _, w4) \<Rightarrow>
                          (Inr (),
                           updateJobStatus jobId
                             [f_status \<mapsto> JStatus completed, f_completed \<mapsto> JBool True,
                              f_completedAt \<mapsto> JDate (clock w4)] w4)))))"

text \<open>\<^verbatim>\<open>options.jobId || uuidv4()\<close>, \<open>uuid\<close> being what \<^verbatim>\<open>uuidv4()\<close> returns.\<close>

definition job_id_of :: "string \<Rightarrow> options \<Rightarrow> string" where
  "job_id_of uuid options =
     (case opt_jobId options of None \<Rightarrow> uuid | Some j \<Rightarrow> if j = [] then uuid else j)"

text \<open>
  \<^verbatim>\<open>performBackfill(options)\<close>: the job is stored, the \<^verbatim>\<open>try\<close> block runs, and an
  error that leaves it marks the job failed and is thrown again.
\<close>

definition performBackfill :: "upstream \<Rightarrow> string \<Rightarrow> options \<Rightarrow> (string, world) action" where
  "performBackfill upstream uuid options w =
     (let jobId = job_id_of uuid options
      in case try_backfill upstream jobId options
                (jobs_set jobId (initial_job jobId (clock w)) w) of
           (Inr _, w') \<Rightarrow> (Inr jobId, w')
         | (Inl err, w') \<Rightarrow>
             (Inl err,
              updateJobStatus jobId
                [f_status \<mapsto> JStatus failed, f_error \<mapsto> JStr (error_message err),
                 f_completed \<mapsto> JBool True, f_completedAt \<mapsto> JDate (clock w')] w'))"

subsection \<open>The polling collector\<close>

text \<open>
  \<^verbatim>\<open>PolygonDataCollector.executeQuery(query, params, retries = 3)\<close>: again
  \<^verbatim>\<open>try { return new Promise(...) } catch (error) { ... }\<close>. The promise is returned
  without \<^verbatim>\<open>await\<close>, so its rejection is the outcome and the \<^verbatim>\<open>catch\<close> block, with the
  reconnection and the retry, is never entered. \<^verbatim>\<open>collectRealtimeData\<close> has checked
  \<^verbatim>\<open>this.pool\<close> before any call.
\<close>

definition collector_executeQuery ::
  "('r, 'a database_scheme) action \<Rightarrow> nat \<Rightarrow> ('r, 'a database_scheme) action" where
  "collector_executeQuery statement retries db = run_statement statement db"

text \<open>The fields of \<^verbatim>\<open>stockData\<close> that reach the history tables.\<close>

record stock_data =
  last_price :: rat
  sd_volume :: rat
  sd_open_price :: rat
  sd_high_price :: rat
  sd_low_price :: rat
  vwap :: "rat option"

text \<open>\<^verbatim>\<open>INSERT INTO stocks (symbol, ...) VALUES (...)\<close>\<close>

definition insert_stock :: "string \<Rightarrow> (int, 'a database_scheme) action" where
  "insert_stock symb db =
     (Inr (stocks_next_id db),
      db\<lparr>stocks := stocks db @ [(stocks_next_id db, symb)],
         stocks_next_id := stocks_next_id db + 1\<rparr>)"

text \<open>
  \<^verbatim>\<open>processSymbol(symbol)\<close>, up to its writes to the history tables; \<open>fetched\<close> is what
  \<^verbatim>\<open>getReliableStockData\<close> gives and \<open>now\<close> what \<^verbatim>\<open>NOW()\<close> is on the server. Any
  error ends in the \<^verbatim>\<open>catch\<close> block, which logs it.
  \<^item> A known stock is updated (\<^verbatim>\<open>UPDATE stocks SET ... WHERE id = ?\<close>, which changes none
    of the columns of the model), then one row is inserted in each history table.
  \<^item> An unknown stock is inserted, and then
    \<^verbatim>\<open>existingStock = { id: result.insertId }\<close> assigns to a \<^verbatim>\<open>const\<close>: a
    \<^verbatim>\<open>TypeError\<close>, before any history row is written.
  The statements that follow in the code are on the enrichment tables.
\<close>

definition processSymbol ::
  "string \<Rightarrow> js_error + stock_data \<Rightarrow> int \<Rightarrow> 'a database_scheme \<Rightarrow> 'a database_scheme" where
  "processSymbol symb fetched now db =
     (case fetched of
        Inl err \<Rightarrow> db
      | Inr stockData \<Rightarrow>
          (case collector_executeQuery (query (select_stock_ids symb)) 3 db of
             (Inl err, db1) \<Rightarrow> db1
           | (Inr [], db1) \<Rightarrow> snd (collector_executeQuery (insert_stock symb) 3 db1)
           | (Inr (existingStock # _), db1) \<Rightarrow>
               (case collector_executeQuery (query (\<lambda>_. ())) 3 db1 of
                  (Inl err, db2) \<Rightarrow> db2
                | (Inr _, db2) \<Rightarrow>
                    (case collector_executeQuery
                            (insert_price existingStock (last_price stockData)
                               (sd_volume stockData) now column_default) 3 db2 of
                       (Inl err, db3) \<Rightarrow> db3
                     | (Inr _, db3) \<Rightarrow>
                         snd (collector_executeQuery
                                (insert_aggregate existingStock (sd_open_price stockData)
                                   (sd_high_price stockData) (sd_low_price stockData)
                                   (last_price stockData) (sd_volume stockData)
                                   (vwap stockData) now collector) 3 db3)))))"

subsection \<open>The streaming collector\<close>

text \<open>
  An element of a parsed WebSocket frame, by its \<^verbatim>\<open>ev\<close>: a status message, a trade
  (\<^verbatim>\<open>sym, p, s, t\<close>), a per-second bar (\<^verbatim>\<open>sym, o, h, l, c, v, vw, s\<close>), or anything
  else.
\<close>

datatype ws_message =
  Status string
  | Trade string rat rat int
  | Bar string rat rat rat rat rat "rat option" int
  | Other

text \<open>
  The body of \<^verbatim>\<open>for (const msg of msgs)\<close> in the \<^verbatim>\<open>message\<close> handler. Status
  messages only send subscriptions or log. A trade or a bar looks the stock up and, if there
  is one, inserts one row; any error is caught and logged. \<^verbatim>\<open>this.query\<close> is one
  statement with no retry.
\<close>

fun on_message :: "ws_message \<Rightarrow> 'a database_scheme \<Rightarrow> 'a database_scheme" where
  "on_message (Status st) db = db"
| "on_message (Trade symb p v ts) db =
     (case run_statement (query (select_stock_ids symb)) db of
        (Inl err, db1) \<Rightarrow> db1
      | (Inr [], db1) \<Rightarrow> db1
      | (Inr (sid # _), db1) \<Rightarrow>
          snd (run_statement (insert_price sid p v ts websocket) db1))"
| "on_message (Bar symb opn hi lo cl v vw startTs) db =
     (case run_statement (query (select_stock_ids symb)) db of
        (Inl err, db1) \<Rightarrow> db1
      | (Inr [], db1) \<Rightarrow> db1
      | (Inr (sid # _), db1) \<Rightarrow>
          snd (run_statement (insert_aggregate sid opn hi lo cl v vw startTs websocket) db1))"
| "on_message Other db = db"

subsection \<open>Writers of the history tables\<close>

text \<open>
  One write to the store by one of its three writers: a frame handled by the streaming
  collector, a symbol processed by the polling collector, or a period repaired by backfill.
\<close>

datatype writer =
  Streaming "ws_message list"
  | Polling string "js_error + stock_data" int
  | Repair upstream int string int int

fun apply_write :: "writer \<Rightarrow> world \<Rightarrow> world" where
  "apply_write (Streaming msgs) w = fold on_message msgs w"
| "apply_write (Polling symb fetched now) w = processSymbol symb fetched now w"
| "apply_write (Repair upstream sid symb startT endT) w =
     snd (backfillPeriod upstream sid symb startT endT w)"

text \<open>The writes of the two collectors, as opposed to those of backfill.\<close>

fun collector_write :: "writer \<Rightarrow> bool" where
  "collector_write (Streaming msgs) = True"
| "collector_write (Polling symb fetched now) = True"
| "collector_write (Repair upstream sid symb startT endT) = False"

text \<open>The key of a history row, and what a write may not change in a row.\<close>

definition row_key :: "'a history_row_scheme \<Rightarrow> int \<times> int" where
  "row_key r = (stock_id r, timestamp r)"

definition keys_unique :: "'a history_row_scheme list \<Rightarrow> bool" where
  "keys_unique rows \<longleftrightarrow> distinct (map row_key rows)"

definition row_identity :: "'a history_row_scheme \<Rightarrow> int \<times> int \<times> int \<times> source_tag" where
  "row_identity r = (row_id r, stock_id r, timestamp r, source r)"

text \<open>The prices stored for a stock at a timestamp, in table order.\<close>

definition prices_at :: "int \<Rightarrow> int \<Rightarrow> 'a database_scheme \<Rightarrow> rat list" where
  "prices_at sid ts db = map price (filter (same_key sid ts) (price_history db))"

text \<open>
  From one state of the store to a later one: the schema is the same, the rows that were
  there are still there, in place, with their id, stock, timestamp and source, and if the
  keys were unique under the unique key they still are.
\<close>

definition grows :: "'a database_scheme \<Rightarrow> 'a database_scheme \<Rightarrow> bool" where
  "grows db db' \<longleftrightarrow>
     unique_timestamps db' = unique_timestamps db \<and>
     prefix (map row_identity (price_history db)) (map row_identity (price_history db')) \<and>
     prefix (map row_identity (aggregate_history db)) (map row_identity (aggregate_history db')) \<and>
     (unique_timestamps db \<longrightarrow> keys_unique (price_history db)
        \<longrightarrow> keys_unique (price_history db')) \<and>
     (unique_timestamps db \<longrightarrow> keys_unique (aggregate_history db)
        \<longrightarrow> keys_unique (aggregate_history db'))"

text \<open>The same with the rows themselves: the rows that were there are there unchanged.\<close>

definition keeps_rows :: "'a database_scheme \<Rightarrow> 'a database_scheme \<Rightarrow> bool" where
  "keeps_rows db db' \<longleftrightarrow>
     prefix (price_history db) (price_history db') \<and>
     prefix (aggregate_history db) (aggregate_history db')"

subsection \<open>Retention cleanup\<close>

datatype table_name = price_history_table | aggregate_history_table

text \<open>
  \<^verbatim>\<open>SELECT id FROM <table> WHERE source = 'websocket' AND timestamp < ? AND id > ?
  ORDER BY id LIMIT ?\<close>
\<close>

definition old_ids :: "int \<Rightarrow> int \<Rightarrow> 'a history_row_scheme list \<Rightarrow> int list" where
  "old_ids cutoffTime lastId rows =
     map row_id
       (filter (\<lambda>r. source r = websocket \<and> timestamp r < cutoffTime \<and> lastId < row_id r) rows)"

definition select_old_ids ::
  "table_name \<Rightarrow> int \<Rightarrow> int \<Rightarrow> nat \<Rightarrow> 'a database_scheme \<Rightarrow> int list" where
  "select_old_ids tableName cutoffTime lastId batchSize db =
     take batchSize
       (sort (case tableName of
                price_history_table \<Rightarrow> old_ids cutoffTime lastId (price_history db)
              | aggregate_history_table \<Rightarrow> old_ids cutoffTime lastId (aggregate_history db)))"

text \<open>\<^verbatim>\<open>DELETE FROM <table> WHERE id IN (?)\<close>\<close>

definition delete_ids :: "table_name \<Rightarrow> int list \<Rightarrow> (unit, 'a database_scheme) action" where
  "delete_ids tableName ids db =
     (Inr (),
      case tableName of
        price_history_table \<Rightarrow>
          db\<lparr>price_history := filter (\<lambda>r. row_id r \<notin> set ids) (price_history db)\<rparr>
      | aggregate_history_table \<Rightarrow>
          db\<lparr>aggregate_history := filter (\<lambda>r. row_id r \<notin> set ids) (aggregate_history db)\<rparr>)"

definition maxAttempts :: nat where
  "maxAttempts = 5"

text \<open>The rows of a table that the next \<^verbatim>\<open>SELECT\<close> can still return.\<close>

definition candidates :: "table_name \<Rightarrow> int \<Rightarrow> int \<Rightarrow> 'a database_scheme \<Rightarrow> nat" where
  "candidates tableName cutoffTime lastId db =
     (case tableName of
        price_history_table \<Rightarrow> length (old_ids cutoffTime lastId (price_history db))
      | aggregate_history_table \<Rightarrow> length (old_ids cutoffTime lastId (aggregate_history db)))"

text \<open>A row that retention removes: tagged \<^verbatim>\<open>websocket\<close> and older than the cutoff.\<close>

definition expired :: "int \<Rightarrow> 'a history_row_scheme \<Rightarrow> bool" where
  "expired cutoffTime r \<longleftrightarrow> source r = websocket \<and> timestamp r < cutoffTime"

text \<open>
  The two nested loops of \<^verbatim>\<open>cleanupTableInBatches\<close>, as one recursion. \<open>attempt\<close>
  counts the failures of the current batch: a failed \<^verbatim>\<open>SELECT\<close> or \<^verbatim>\<open>DELETE\<close> is
  tried again while fewer than \<open>maxAttempts\<close> attempts have failed, and else the error is
  thrown; a batch that went through resets the count; an empty batch ends the pass.
  \<^verbatim>\<open>lastId\<close> is assigned as soon as the \<^verbatim>\<open>SELECT\<close> has returned, before the
  \<^verbatim>\<open>DELETE\<close>. \<open>batches\<close> collects the batches deleted so far (the code only counts
  them). The waits between attempts and between batches are left out.
\<close>

function cleanup_loop ::
  "table_name \<Rightarrow> int \<Rightarrow> nat \<Rightarrow> int \<Rightarrow> nat \<Rightarrow> int list list
     \<Rightarrow> (int list list, 'a database_scheme) action" where
  "cleanup_loop tableName cutoffTime batchSize lastId attempt batches db =
     (case run_statement (query (select_old_ids tableName cutoffTime lastId batchSize)) db of
        (Inl err, db1) \<Rightarrow>
          if Suc attempt < maxAttempts
          then cleanup_loop tableName cutoffTime batchSize lastId (Suc attempt) batches db1
          else (Inl err, db1)
      | (Inr ids, db1) \<Rightarrow>
          if length ids = 0 then (Inr batches, db1)
          else
            (case run_statement (delete_ids tableName ids) db1 of
               (Inl err, db2) \<Rightarrow>
                 if Suc attempt < maxAttempts
                 then cleanup_loop tableName cutoffTime batchSize (last ids) (Suc attempt) batches db2
                 else (Inl err, db2)
             | (Inr _, db2) \<Rightarrow>
                 cleanup_loop tableName cutoffTime batchSize (last ids) 0 (batches @ [ids]) db2))"
  by pat_completeness auto

text \<open>
  The recursion ends: every batch that is selected moves \<^verbatim>\<open>lastId\<close> past at least one
  candidate row, and between two batches at most \<open>maxAttempts\<close> attempts fail.
\<close>

lemma candidates_round_trips [simp]:
  "candidates tableName cutoffTime lastId (db\<lparr>round_trips := n\<rparr>) = candidates tableName cutoffTime lastId db"
  by (simp add: candidates_def split: table_name.splits)

lemma select_old_ids_round_trips [simp]:
  "select_old_ids tableName cutoffTime lastId batchSize (db\<lparr>round_trips := n\<rparr>) =
   select_old_ids tableName cutoffTime lastId batchSize db"
  by (simp add: select_old_ids_def split: table_name.splits)

lemma run_query_cases:
  assumes "run_statement (query sel) db = (r, db1)"
  shows "db1 = db\<lparr>round_trips := Suc (round_trips db)\<rparr> \<and>
         (r = Inr (sel (db\<lparr>round_trips := Suc (round_trips db)\<rparr>)) \<or> (\<exists>err. r = Inl err))"
  using assms by (auto simp: run_statement_def query_def Let_def split: option.splits)

lemma old_ids_mono:
  assumes "lastId \<le> lastId'"
  shows "length (old_ids cutoffTime lastId' (filter P rows)) \<le> length (old_ids cutoffTime lastId rows)"
proof -
  have "length (old_ids cutoffTime lastId' (filter P rows)) =
          length (filter (\<lambda>r. P r \<and> source r = websocket \<and> timestamp r < cutoffTime \<and> lastId' < row_id r) rows)"
    by (simp add: old_ids_def conj_commute)
  also have "\<dots> \<le> length (filter (\<lambda>r. source r = websocket \<and> timestamp r < cutoffTime \<and> lastId < row_id r) rows)"
    using assms by (induction rows) auto
  finally show ?thesis by (simp add: old_ids_def)
qed

lemma old_ids_less:
  assumes "x \<in> set (old_ids cutoffTime lastId rows)"
  shows "length (old_ids cutoffTime x (filter P rows)) < length (old_ids cutoffTime lastId rows)"
proof -
  from assms obtain r where r: "r \<in> set rows" "source r = websocket" "timestamp r < cutoffTime"
      "lastId < row_id r" "row_id r = x"
    by (auto simp: old_ids_def)
  let ?A = "\<lambda>r. P r \<and> source r = websocket \<and> timestamp r < cutoffTime \<and> x < row_id r"
  let ?B = "\<lambda>r. source r = websocket \<and> timestamp r < cutoffTime \<and> lastId < row_id r"
  have imp: "\<And>y. ?A y \<Longrightarrow> ?B y" using r by auto
  have "length (filter ?A rows) < length (filter ?B rows)"
    using r(1) imp r(2-5)
  proof (induction rows)
    case Nil
    then show ?case by simp
  next
    case (Cons a rows)
    have le: "length (filter ?A rows) \<le> length (filter ?B rows)"
      using Cons.prems(2) by (induction rows) auto
    show ?case
    proof (cases "a = r")
      case True
      then show ?thesis using le Cons.prems by auto
    next
      case False
      then have "r \<in> set rows" using Cons.prems(1) by simp
      from Cons.IH [OF this Cons.prems(2-)] show ?thesis
        using Cons.prems(2) [of a] by auto
    qed
  qed
  then show ?thesis by (simp add: old_ids_def conj_commute)
qed

lemma last_select_old_ids:
  assumes "select_old_ids tableName cutoffTime lastId batchSize db = ids" and "ids \<noteq> []"
  shows "last ids \<in> set (case tableName of
                price_history_table \<Rightarrow> old_ids cutoffTime lastId (price_history db)
              | aggregate_history_table \<Rightarrow> old_ids cutoffTime lastId (aggregate_history db))"
proof -
  have "last ids \<in> set ids" using assms(2) by simp
  then show ?thesis
    using assms(1) by (auto simp: select_old_ids_def dest: in_set_takeD)
qed

lemma candidates_less:
  assumes "x \<in> set (case tableName of
                price_history_table \<Rightarrow> old_ids cutoffTime lastId (price_history db)
              | aggregate_history_table \<Rightarrow> old_ids cutoffTime lastId (aggregate_history db))"
  shows "candidates tableName cutoffTime x db < candidates tableName cutoffTime lastId db"
proof (cases tableName)
  case price_history_table
  then show ?thesis
    using assms old_ids_less [where P = "\<lambda>_. True" and rows = "price_history db"]
    by (simp add: candidates_def)
next
  case aggregate_history_table
  then show ?thesis
    using assms old_ids_less [where P = "\<lambda>_. True" and rows = "aggregate_history db"]
    by (simp add: candidates_def)
qed

termination cleanup_loop
proof (relation "measures [\<lambda>(tableName, cutoffTime, batchSize, lastId, attempt, batches, db).
                             candidates tableName cutoffTime lastId db,
                           \<lambda>(tableName, cutoffTime, batchSize, lastId, attempt, batches, db).
                             maxAttempts - attempt]", goal_cases)
  case 1
  then show ?case by simp
next
  case (2 tableName cutoffTime batchSize lastId attempt batches db x y err)
  from run_query_cases [OF 2(1) [symmetric]] 2(3) show ?case by auto
next
  case (3 tableName cutoffTime batchSize lastId attempt batches db x y ids x' y' err)
  from run_query_cases [OF 3(1) [symmetric]] 3(2)
  have y: "y = db\<lparr>round_trips := Suc (round_trips db)\<rparr>"
    and ids: "select_old_ids tableName cutoffTime lastId batchSize db = ids" by auto
  have ne: "ids \<noteq> []" using 3(3) by simp
  have y': "candidates tableName cutoffTime (last ids) y' \<le> candidates tableName cutoffTime (last ids) db"
    using 3(4) y
    by (auto simp: run_statement_def delete_ids_def Let_def candidates_def old_ids_mono
          split: option.splits table_name.splits)
  have "candidates tableName cutoffTime (last ids) db < candidates tableName cutoffTime lastId db"
    using last_select_old_ids [OF ids ne] by (rule candidates_less)
  then show ?case using y' by simp
next
  case (4 tableName cutoffTime batchSize lastId attempt batches db x y ids x' y' u)
  from run_query_cases [OF 4(1) [symmetric]] 4(2)
  have y: "y = db\<lparr>round_trips := Suc (round_trips db)\<rparr>"
    and ids: "select_old_ids tableName cutoffTime lastId batchSize db = ids" by auto
  have ne: "ids \<noteq> []" using 4(3) by simp
  have y': "candidates tableName cutoffTime (last ids) y' \<le> candidates tableName cutoffTime (last ids) db"
    using 4(4) y
    by (auto simp: run_statement_def delete_ids_def Let_def candidates_def old_ids_mono
          split: option.splits table_name.splits)
  have "candidates tableName cutoffTime (last ids) db < candidates tableName cutoffTime lastId db"
    using last_select_old_ids [OF ids ne] by (rule candidates_less)
  then show ?case using y' by simp
qed

text \<open>\<^verbatim>\<open>cleanupTableInBatches(tableName, cutoffTime, batchSize)\<close>\<close>

definition cleanupTableInBatches ::
  "table_name \<Rightarrow> int \<Rightarrow> nat \<Rightarrow> (int list list, 'a database_scheme) action" where
  "cleanupTableInBatches tableName cutoffTime batchSize db =
     cleanup_loop tableName cutoffTime batchSize 0 0 [] db"

text \<open>
  \<^verbatim>\<open>cleanupWebsocketData()\<close>, with \<open>now\<close> the time it starts at, on a host in the time
  zone \<open>tz\<close>: nothing when a pass is running; else the cutoff is 15 minutes before \<open>now\<close>
  in local time (\<^verbatim>\<open>setMinutes(getMinutes() - 15)\<close>), the batch size 250, and the price
  table is cleaned before the aggregate table. An error is caught and logged; the result
  says which, with the batches of the two tables when there was none.
\<close>

definition cleanupWebsocketData ::
  "time_zone \<Rightarrow> bool \<Rightarrow> int \<Rightarrow> 'a database_scheme
     \<Rightarrow> (js_error + int list list \<times> int list list) option \<times> 'a database_scheme" where
  "cleanupWebsocketData tz cleanupRunning now db =
     (if cleanupRunning then (None, db)
      else
        (let batchSize = 250; cutoffTime = minutes_before tz 15 now
         in case cleanupTableInBatches price_history_table cutoffTime batchSize db of
              (Inl err, db1) \<Rightarrow> (Some (Inl err), db1)
            | (Inr priceBatches, db1) \<Rightarrow>
                (case cleanupTableInBatches aggregate_history_table cutoffTime batchSize db1 of
                   (Inl err, db2) \<Rightarrow> (Some (Inl err), db2)
                 | (Inr aggregateBatches, db2) \<Rightarrow>
                     (Some (Inr (priceBatches, aggregateBatches)), db2))))"

subsection \<open>Observing a job\<close>

text \<open>
  What an observer reads off a job value: \<^verbatim>\<open>processedPeriods\<close> (0 while it is not a
  number), \<^verbatim>\<open>totalPeriods\<close>, \<^verbatim>\<open>progress\<close>, \<^verbatim>\<open>status\<close> and \<^verbatim>\<open>errors\<close>, when
  they are there.
\<close>

definition processed_of :: "job \<Rightarrow> int" where
  "processed_of j = (case j f_processedPeriods of Some (JNum n) \<Rightarrow> n | _ \<Rightarrow> 0)"

definition total_of :: "job \<Rightarrow> int option" where
  "total_of j = (case j f_totalPeriods of Some (JNum n) \<Rightarrow> Some n | _ \<Rightarrow> None)"

definition progress_in :: "job \<Rightarrow> int option" where
  "progress_in j = (case j f_progress of Some (JNum n) \<Rightarrow> Some n | _ \<Rightarrow> None)"

definition status_in :: "job \<Rightarrow> job_status option" where
  "status_in j = (case j f_status of Some (JStatus st) \<Rightarrow> Some st | _ \<Rightarrow> None)"

definition errors_in :: "job \<Rightarrow> period_error list option" where
  "errors_in j = (case j f_errors of Some (JErrors es) \<Rightarrow> Some es | _ \<Rightarrow> None)"

definition terminal :: "job \<Rightarrow> bool" where
  "terminal j \<longleftrightarrow> status_in j = Some completed \<or> status_in j = Some failed"

text \<open>The values stored in the job map between two states of one run, oldest first.\<close>

definition run_history :: "world \<Rightarrow> world \<Rightarrow> job list" where
  "run_history w w' = map snd (drop (length (job_history w)) (job_history w'))"

text \<open>Two states with the same pool, job map and job history.\<close>

definition same_jobs :: "world \<Rightarrow> world \<Rightarrow> bool" where
  "same_jobs w w' \<longleftrightarrow>
     pool w' = pool w \<and> backfillJobs w' = backfillJobs w \<and> job_history w' = job_history w"

text \<open>
  What holds of the values a run has stored so far: \<^verbatim>\<open>processedPeriods\<close> never goes
  down, it stays within \<^verbatim>\<open>totalPeriods\<close> once that is set, and a value marked
  \<^verbatim>\<open>completed\<close> has \<^verbatim>\<open>progress\<close> 100.
\<close>

definition history_ok :: "job list \<Rightarrow> bool" where
  "history_ok js \<longleftrightarrow>
     sorted (map processed_of js) \<and>
     (\<forall>j \<in> set js. \<forall>t. total_of j = Some t \<longrightarrow> processed_of j \<le> t) \<and>
     (\<forall>j \<in> set js. status_in j = Some completed \<longrightarrow> progress_in j = Some 100)"

text \<open>
  The state of the job at the head of the loop of \<^verbatim>\<open>performBackfill\<close>, before period
  \<open>i\<close> of \<open>n\<close>; \<open>k\<close> is the length the job history had when the run began.
\<close>

definition loop_inv :: "nat \<Rightarrow> string \<Rightarrow> nat \<Rightarrow> nat \<Rightarrow> world \<Rightarrow> bool" where
  "loop_inv k jobId i n w \<longleftrightarrow>
     (\<exists>job es. backfillJobs w jobId = Some job \<and>
        job f_processedPeriods = Some (JNum (int i)) \<and>
        job f_totalPeriods = Some (JNum (int n)) \<and>
        job f_status = Some (JStatus processing) \<and>
        job f_errors = Some (JErrors es) \<and>
        (0 < i \<and> i = n \<longrightarrow> job f_progress = Some (JNum 100)) \<and>
        job_history w \<noteq> [] \<and> snd (last (job_history w)) = job) \<and>
     i \<le> n \<and>
     k < length (job_history w) \<and>
     history_ok (map snd (drop k (job_history w))) \<and>
     (\<forall>j \<in> set (map snd (drop k (job_history w))). processed_of j \<le> int i)"

text \<open>The state in which \<^verbatim>\<open>performBackfill\<close> calls \<^verbatim>\<open>identifyMissingPeriods\<close>.\<close>

definition started :: "string \<Rightarrow> world \<Rightarrow> world" where
  "started jobId w =
     updateJobStatus jobId [f_status \<mapsto> JStatus identifying_gaps]
       (jobs_set jobId (initial_job jobId (clock w)) w)"

subsection \<open>Example data\<close>

text \<open>
  One tracked stock with three stored points, at minutes 0, 5 and 30, behind the pool that
  \<^verbatim>\<open>server.js\<close> really hands to the service, on a host in UTC; and a request for the window from minute
  0 to minute 40 with the default threshold.
\<close>

definition example_point :: "int \<Rightarrow> int \<Rightarrow> price_row" where
  "example_point i ts =
     \<lparr>row_id = i, stock_id = 1, timestamp = ts, source = column_default,
      volume = 1000, price = 100\<rparr>"

definition example_world :: world where
  "example_world =
     \<lparr>unique_timestamps = True,
      stocks = [(1, ''AAPL'')], stocks_next_id = 2,
      price_history = [example_point 1 0, example_point 2 300000, example_point 3 1800000],
      price_history_next_id = 4,
      aggregate_history = [], aggregate_history_next_id = 1,
      faults = (\<lambda>n. None), round_trips = 0,
      pool = Some mysql_pool, clock = 2400000, zone = utc_zone,
      backfillJobs = Map.empty, job_history = []\<rparr>"

definition example_options :: options where
  "example_options =
     \<lparr>opt_symbols = Some [''AAPL''], opt_startTime = Some 0, opt_endTime = Some 2400000,
      opt_gapThreshold = None, opt_jobId = None, opt_force = False\<rparr>"

text \<open>
  A store with three tracked stocks. The first has points at minutes 50, 20 and 25, stored in
  that order, and one at minute 80; the second has none; the third has one at minute 30. The
  request names the first two stocks, the window from minute 1 to minute 70 and a threshold
  of 10 minutes.
\<close>

definition custom_world :: world where
  "custom_world =
     example_world
       \<lparr>stocks := [(1, ''AAPL''), (2, ''MSFT''), (3, ''TSLA'')], stocks_next_id := 4,
        price_history :=
          [example_point 1 3000000, example_point 2 1200000, example_point 3 1500000,
           example_point 4 4800000, (example_point 5 1800000)\<lparr>stock_id := 3\<rparr>],
        price_history_next_id := 6\<rparr>"

definition custom_options :: options where
  "custom_options =
     \<lparr>opt_symbols = Some [''AAPL'', ''MSFT''], opt_startTime = Some 60000,
      opt_endTime = Some 4200000, opt_gapThreshold = Some 10, opt_jobId = None,
      opt_force = False\<rparr>"

text \<open>
  The same store when the first round trip is cut by a connection reset and every later one
  succeeds; and a pool that has \<^verbatim>\<open>execute\<close> and no \<^verbatim>\<open>query\<close>.
\<close>

definition econnreset :: js_error where
  "econnreset = JsError (Some ECONNRESET) ''read ECONNRESET''"

definition flaky_world :: world where
  "flaky_world = example_world\<lparr>faults := (\<lambda>n. if n = 0 then Some econnreset else None)\<rparr>"

definition promise_pool :: pool_object where
  "promise_pool = \<lparr>has_query = False, has_execute = True, has_getConnection = True\<rparr>"

text \<open>An upstream provider that times out, and one that has no data.\<close>

definition failing_upstream :: upstream where
  "failing_upstream symb tf a b = Inl (JsError None ''timeout of 15000ms exceeded'')"

definition empty_upstream :: upstream where
  "empty_upstream symb tf a b = Inr []"

text \<open>
  An upstream provider with two data points, at minutes 5 and 10, and the repair of a span
  of two days with it, once and twice.
\<close>

definition example_points :: "hist_point list" where
  "example_points =
     [\<lparr>p_time = 300000, p_price = 101, p_open = Some 100, p_high = Some 102,
       p_low = None, p_volume = Some 500\<rparr>,
      \<lparr>p_time = 600000, p_price = 102, p_open = None, p_high = None,
       p_low = None, p_volume = None\<rparr>]"

definition example_upstream :: upstream where
  "example_upstream symb tf a b = Inr example_points"

definition example_repair :: "(hist_point list, world) action" where
  "example_repair = backfillPeriod example_upstream 1 ''AAPL'' 0 172800000"

definition once_repaired :: world where
  "once_repaired = snd (example_repair example_world)"

definition twice_repaired :: world where
  "twice_repaired = snd (example_repair once_repaired)"

text \<open>
  A trade at timestamp 10 with price 100 that the streaming collector receives, and what the
  polling collector fetches for the same stock, price 101, and stores with timestamp 10.
\<close>

definition example_trade :: ws_message where
  "example_trade = Trade ''AAPL'' 100 5 10"

definition example_stock_data :: stock_data where
  "example_stock_data =
     \<lparr>last_price = 101, sd_volume = 7, sd_open_price = 100, sd_high_price = 102,
      sd_low_price = 99, vwap = None\<rparr>"

definition streamed_world :: world where
  "streamed_world = apply_write (Streaming [example_trade]) example_world"

definition example_poll :: writer where
  "example_poll = Polling ''AAPL'' (Inr example_stock_data) 10"

text \<open>
  A store whose price table holds one old streaming row, when the second round trip (the
  first \<^verbatim>\<open>DELETE\<close> of a cleanup pass) runs into a lock wait timeout.
\<close>

definition stale_row :: price_row where
  "stale_row =
     \<lparr>row_id = 1, stock_id = 1, timestamp = 0, source = websocket, volume = 10, price = 100\<rparr>"

definition lock_timeout :: js_error where
  "lock_timeout = JsError (Some OTHER_CODE) ''Lock wait timeout exceeded; try restarting transaction''"

definition locked_world :: world where
  "locked_world =
     example_world\<lparr>price_history := [stale_row],
                   faults := (\<lambda>n. if n = 1 then Some lock_timeout else None)\<rparr>"

section \<open>Properties\<close>

declare executeQuery.simps [simp del]

declare cleanup_loop.simps [simp del]

subsection \<open>Doubles\<close>

text \<open>An integer below \<open>2\<^sup>5\<^sup>3\<close> in absolute value is a double.\<close>

lemma round_even_int [simp]: "round_even (of_int k) = k"
  by (simp add: round_even_def)

lemma double_round_int:
  assumes "\<bar>n\<bar> < 2 ^ 53"
  shows "double_round (of_int n) = of_int n"
proof (cases "n = 0")
  case True
  then show ?thesis by (simp add: double_round_def)
next
  case False
  define m where "m = nat \<bar>n\<bar>"
  have m: "0 < m" "m < 2 ^ 53" using False assms by (simp_all add: m_def nat_less_iff)
  define L where "L = floorlog 2 m"
  have b: "2 ^ (L - 1) \<le> m" "m < 2 ^ L"
    using floorlog_bounds [of m 2] m(1) by (simp_all add: L_def)
  have L1: "1 \<le> L"
    using b(2) m(1) by (cases L) simp_all
  have "(2::nat) ^ (L - 1) < 2 ^ 53" using b(1) m(2) by simp
  then have "L - 1 < 53" by (simp only: power_strict_increasing_iff [of 2] one_less_numeral_iff semiring_norm)
  then have L2: "L \<le> 53" by simp
  have abs1: "1 \<le> \<bar>(of_int n :: rat)\<bar>" using False by (simp flip: of_int_abs add: of_int_1_le_iff [symmetric] del: of_int_abs)
  have fl: "nat \<lfloor>\<bar>(of_int n :: rat)\<bar>\<rfloor> = m"
    by (simp add: m_def flip: of_int_abs)
  have e: "binade (of_int n) = int L - 1"
    using abs1 by (simp add: binade_def fl L_def)
  define k where "k = 53 - L"
  have u: "pow2 (binade (of_int n) - 52) = 1 / 2 ^ k"
  proof (cases "L = 53")
    case True
    then show ?thesis by (simp add: e pow2_def k_def)
  next
    case False
    then have "int L - 1 - 52 < 0" using L2 by simp
    moreover have "nat (- (int L - 1 - 52)) = k" using L2 by (simp add: k_def)
    ultimately show ?thesis by (simp add: e pow2_def)
  qed
  have q: "(of_int n :: rat) / (1 / 2 ^ k) = of_int (n * 2 ^ k)" by simp
  show ?thesis
    using False unfolding double_round_def Let_def u q round_even_int by simp
qed

lemma double_round_numeral:
  assumes "(numeral k :: int) < 2 ^ 53"
  shows "double_round (numeral k) = numeral k"
  using double_round_int [of "numeral k"] assms by simp

lemma double_round_zero [simp]: "double_round 0 = 0"
  by (simp add: double_round_def)

lemma double_round_one [simp]: "double_round 1 = 1"
  using double_round_int [of 1] by simp

lemmas js_numerals = js_sub_def js_div_def js_mul_def double_round_numeral

text \<open>
  A difference of two times, in minutes, against a threshold that is a whole number of
  minutes: the comparison of the doubles is the comparison of the exact numbers, for times
  less than \<open>2\<^sup>5\<^sup>3\<close> milliseconds apart.
\<close>

lemma round_even_le:
  assumes "y \<le> of_int n"
  shows "round_even y \<le> n"
proof -
  have f: "\<lfloor>y\<rfloor> \<le> n" using assms by (simp add: floor_le_iff)
  show ?thesis
  proof (cases "\<lfloor>y\<rfloor> = n")
    case True
    have "of_int \<lfloor>y\<rfloor> \<le> y" by simp
    then have "y = of_int n" using assms True by simp
    then show ?thesis by simp
  next
    case False
    then have "\<lfloor>y\<rfloor> + 1 \<le> n" using f by simp
    then show ?thesis by (simp add: round_even_def Let_def)
  qed
qed

lemma round_even_ge:
  assumes "of_int n + 1 / 2 < y"
  shows "n + 1 \<le> round_even y"
proof -
  have "of_int n \<le> y" using assms by simp
  then have f: "n \<le> \<lfloor>y\<rfloor>" by (simp add: le_floor_iff)
  show ?thesis
  proof (cases "\<lfloor>y\<rfloor> = n")
    case True
    then have "1 / 2 < y - of_int \<lfloor>y\<rfloor>" using assms by simp
    then show ?thesis using True by (simp add: round_even_def Let_def)
  next
    case False
    then have "n + 1 \<le> \<lfloor>y\<rfloor>" using f by simp
    then show ?thesis by (simp add: round_even_def Let_def)
  qed
qed

lemma binade_less:
  assumes "0 < x" and "x < 2 ^ K" and "0 < K"
  shows "binade x \<le> int K - 1"
proof (cases "1 \<le> x")
  case True
  define m where "m = nat \<lfloor>x\<rfloor>"
  have "1 \<le> \<lfloor>x\<rfloor>" using True by (simp add: le_floor_iff)
  then have m0: "0 < m" by (simp add: m_def)
  have "\<lfloor>x\<rfloor> < 2 ^ K" using assms(2) by (simp add: floor_less_iff)
  then have mK: "m < 2 ^ K" using m0 by (simp add: m_def nat_less_iff)
  have "2 ^ (floorlog 2 m - 1) \<le> m"
    using floorlog_bounds [of m 2] m0 by simp
  then have "(2::nat) ^ (floorlog 2 m - 1) < 2 ^ K" using mK by (rule le_less_trans)
  then have "floorlog 2 m - 1 < K"
    by (simp only: power_strict_increasing_iff [of 2] one_less_numeral_iff semiring_norm)
  then have "int (floorlog 2 m) - 1 \<le> int K - 1" by simp
  then show ?thesis
    using True assms(1) by (simp add: binade_def m_def)
next
  case False
  then have "binade x \<le> 0" using assms(1) by (simp add: binade_def)
  then show ?thesis using assms(3) by simp
qed

lemma pow2_below:
  assumes "e \<le> 52"
  shows "pow2 (e - 52) = 1 / 2 ^ nat (52 - e)"
proof (cases "e = 52")
  case True
  then show ?thesis by (simp add: pow2_def)
next
  case False
  then have "e - 52 < 0" using assms by simp
  moreover have "- (e - 52) = 52 - e" by simp
  ultimately show ?thesis by (simp add: pow2_def)
qed

lemma minutes_exceed:
  assumes T: "0 \<le> T" and d: "0 \<le> d" "d < 2 ^ 53"
  shows "of_int T < js_div (of_int d) 60000 \<longleftrightarrow> T * 60000 < d"
proof (cases "d = 0")
  case True
  then show ?thesis using T by (simp add: js_div_def double_round_def)
next
  case False
  define x :: rat where "x = of_int d / 60000"
  have x0: "0 < x" using False d(1) by (simp add: x_def)
  have "of_int d < (2::rat) ^ 53" using d(2) by (metis of_int_less_iff of_int_numeral of_int_power)
  then have x38: "x < 2 ^ 38" by (simp add: x_def)
  define e where "e = binade x"
  have e37: "e \<le> 37" using binade_less [OF x0 x38] by (simp add: e_def)
  define k where "k = nat (52 - e)"
  have k15: "15 \<le> k" using e37 by (simp add: k_def)
  have u: "pow2 (e - 52) = 1 / 2 ^ k"
    using pow2_below [of e] e37 by (simp add: k_def)
  have fl: "js_div (of_int d) 60000 = of_int (round_even (x * 2 ^ k)) / 2 ^ k"
    using x0 by (simp add: js_div_def double_round_def Let_def x_def [symmetric] e_def [symmetric] u)
  have p: "(0::rat) < 2 ^ k" by simp
  have Tn: "(of_int (T * 2 ^ k) :: rat) / 2 ^ k = of_int T" by simp
  show ?thesis
  proof
    assume "T * 60000 < d"
    then have "T * 60000 + 1 \<le> d" by simp
    then have "(of_int (T * 60000 + 1) :: rat) \<le> of_int d" by (simp only: of_int_le_iff)
    then have "of_int T + 1 / 60000 \<le> x" by (simp add: x_def field_simps)
    then have "(of_int T + 1 / 60000) * 2 ^ k \<le> x * 2 ^ k"
      using p by (simp only: mult_le_cancel_right_pos)
    moreover have "(1 / 2 :: rat) < (1 / 60000) * 2 ^ k"
    proof -
      have "(2::rat) ^ 15 \<le> 2 ^ k"
        using k15 by (simp only: power_increasing_iff [of 2] one_less_numeral_iff semiring_norm)
      then have "(1 / 60000) * (2::rat) ^ 15 \<le> (1 / 60000) * 2 ^ k"
        by (rule mult_left_mono) simp
      moreover have "(1 / 2 :: rat) < (1 / 60000) * 2 ^ 15" by simp
      ultimately show ?thesis by (rule less_le_trans [rotated])
    qed
    ultimately have "of_int (T * 2 ^ k) + 1 / 2 < x * 2 ^ k"
      by (simp add: algebra_simps)
    then have "T * 2 ^ k + 1 \<le> round_even (x * 2 ^ k)" by (rule round_even_ge)
    then have "T * 2 ^ k < round_even (x * 2 ^ k)" by simp
    then have "(of_int (T * 2 ^ k) :: rat) < of_int (round_even (x * 2 ^ k))"
      by (simp only: of_int_less_iff)
    then have "(of_int (T * 2 ^ k) :: rat) / 2 ^ k < of_int (round_even (x * 2 ^ k)) / 2 ^ k"
      using p by (simp only: divide_strict_right_mono)
    then show "of_int T < js_div (of_int d) 60000"
      unfolding fl by (simp only: Tn)
  next
    assume a: "of_int T < js_div (of_int d) 60000"
    show "T * 60000 < d"
    proof (rule ccontr)
      assume "\<not> T * 60000 < d"
      then have "d \<le> T * 60000" by simp
      then have "(of_int d :: rat) \<le> of_int (T * 60000)" by (simp only: of_int_le_iff)
      then have "x \<le> of_int T" by (simp add: x_def field_simps)
      then have "x * 2 ^ k \<le> of_int T * 2 ^ k"
        using p by (simp only: mult_le_cancel_right_pos)
      then have "x * 2 ^ k \<le> of_int (T * 2 ^ k)" by simp
      then have "round_even (x * 2 ^ k) \<le> T * 2 ^ k" by (rule round_even_le)
      then have "(of_int (round_even (x * 2 ^ k)) :: rat) \<le> of_int (T * 2 ^ k)"
        by (simp only: of_int_le_iff)
      then have "(of_int (round_even (x * 2 ^ k)) :: rat) / 2 ^ k \<le> of_int (T * 2 ^ k) / 2 ^ k"
        using p by (simp only: divide_right_mono less_imp_le)
      then have "js_div (of_int d) 60000 \<le> of_int T"
        unfolding fl by (simp only: Tn)
      then show False using a by simp
    qed
  qed
qed

lemma minutes_between_exceed:
  assumes "0 \<le> T" and "a \<le> b" and "b - a < 2 ^ 53"
  shows "of_int T < js_div (js_sub (of_int b) (of_int a)) 60000 \<longleftrightarrow> T * 60000 < b - a"
proof -
  have "js_sub (of_int b) (of_int a) = of_int (b - a)"
    using double_round_int [of "b - a"] assms(2,3) by (simp add: js_sub_def)
  then show ?thesis
    using minutes_exceed [of T "b - a"] assms by simp
qed

text \<open>
  At 23 of 40 the quotient is the double just below 0.575 and the progress 57, where the
  exact quotient would give 58; and the double of 0.3.
\<close>

lemma progress_23_of_40: "progress_of 23 40 = 57"
  by code_simp

lemma double_of_three_tenths: "double_round (3 / 10) = 5404319552844595 / 18014398509481984"
  by code_simp

subsection \<open>Granularity\<close>

lemma days_less_iff:
  "(of_int d :: rat) / (1000 * 60 * 60 * 24) < of_int k \<longleftrightarrow> d < k * 86400000"
proof -
  have "(of_int d :: rat) / (1000 * 60 * 60 * 24) < of_int k \<longleftrightarrow>
          (of_int d :: rat) < of_int k * 86400000"
    by (simp add: divide_less_eq)
  also have "\<dots> \<longleftrightarrow> (of_int d :: rat) < of_int (k * 86400000)"
    by simp
  also have "\<dots> \<longleftrightarrow> d < k * 86400000"
    by (simp only: of_int_less_iff)
  finally show ?thesis .
qed

text \<open>
  Claim C9. The granularity of a historical fetch is a function of the two endpoints of the
  span, through their distance alone: less than one day (86400000 ms) gives minute bars, less
  than 7 days hourly bars, less than 30 days daily bars, less than 365 days weekly bars, and
  anything longer monthly bars.
\<close>

theorem determineTimeframe_tiers:
  "determineTimeframe startDate endDate =
     (if \<bar>endDate - startDate\<bar> < 86400000 then minute
      else if \<bar>endDate - startDate\<bar> < 7 * 86400000 then hour
      else if \<bar>endDate - startDate\<bar> < 30 * 86400000 then day
      else if \<bar>endDate - startDate\<bar> < 365 * 86400000 then week
      else month)"
  using days_less_iff [of "\<bar>endDate - startDate\<bar>" 1]
        days_less_iff [of "\<bar>endDate - startDate\<bar>" 7]
        days_less_iff [of "\<bar>endDate - startDate\<bar>" 30]
        days_less_iff [of "\<bar>endDate - startDate\<bar>" 365]
  by (simp add: determineTimeframe_def Let_def)

theorem determineTimeframe_tiers_witness:
  "determineTimeframe 0 86399999 = minute \<and> determineTimeframe 0 86400000 = hour \<and>
   determineTimeframe 604800000 0 = day \<and> determineTimeframe 0 2592000000 = week \<and>
   determineTimeframe 0 31536000000 = month"
  using determineTimeframe_tiers [of 0 86399999] determineTimeframe_tiers [of 0 86400000]
        determineTimeframe_tiers [of 604800000 0] determineTimeframe_tiers [of 0 2592000000]
        determineTimeframe_tiers [of 0 31536000000]
  by simp

subsection \<open>Job status lookup\<close>

text \<open>
  Claim C10. \<^verbatim>\<open>getBackfillStatus\<close> is total: for a job id in the job map it returns
  that job's current value (after an update, the merged object), and for a job id that is not
  in the map it returns the object \<^verbatim>\<open>{ error: "Job not found" }\<close>. The reply type has no
  other value, so it neither throws nor returns null or undefined.
\<close>

theorem getBackfillStatus_total:
  "(\<forall>j. backfillJobs w jobId = Some j \<longrightarrow> getBackfillStatus jobId w = Snapshot j) \<and>
   (backfillJobs w jobId = None \<longrightarrow> getBackfillStatus jobId w = ErrorObject ''Job not found'') \<and>
   getBackfillStatus jobId (updateJobStatus jobId update w) =
     Snapshot ((case backfillJobs w jobId of Some j \<Rightarrow> j | None \<Rightarrow> Map.empty) ++ update)"
  by (simp add: getBackfillStatus_def updateJobStatus_def jobs_set_def Let_def)

theorem getBackfillStatus_total_witness:
  "backfillJobs example_world ''job-1'' = None \<and>
   getBackfillStatus ''job-1'' example_world = ErrorObject ''Job not found'' \<and>
   backfillJobs (updateJobStatus ''job-1'' [f_status \<mapsto> JStatus running] example_world) ''job-1''
     = Some [f_status \<mapsto> JStatus running] \<and>
   getBackfillStatus ''job-1''
       (updateJobStatus ''job-1'' [f_status \<mapsto> JStatus running] example_world)
     = Snapshot [f_status \<mapsto> JStatus running]"
proof -
  let ?w = "updateJobStatus ''job-1'' [f_status \<mapsto> JStatus running] example_world"
  have a: "backfillJobs example_world ''job-1'' = None"
    by (simp add: example_world_def)
  have b: "backfillJobs ?w ''job-1'' = Some [f_status \<mapsto> JStatus running]"
    by (simp add: example_world_def updateJobStatus_def jobs_set_def Let_def)
  have c: "getBackfillStatus ''job-1'' example_world = ErrorObject ''Job not found''"
    using getBackfillStatus_total [of example_world "''job-1''"] a by blast
  have d: "getBackfillStatus ''job-1'' ?w = Snapshot [f_status \<mapsto> JStatus running]"
    using getBackfillStatus_total [of ?w "''job-1''"] b by blast
  show ?thesis
    using a b c d by blast
qed

subsection \<open>Gap detection\<close>

lemma healthy_round_trips [simp]: "healthy (db\<lparr>round_trips := n\<rparr>) = healthy db"
  by (simp add: healthy_def)

lemma run_statement_healthy:
  "healthy db \<Longrightarrow> run_statement st db = st (db\<lparr>round_trips := Suc (round_trips db)\<rparr>)"
  by (simp add: run_statement_def healthy_def Let_def)

lemma select_timestamps_round_trips [simp]:
  "select_timestamps sid a b (db\<lparr>round_trips := n\<rparr>) = select_timestamps sid a b db"
  by (simp add: select_timestamps_def)

lemma select_stocks_round_trips [simp]:
  "select_stocks syms (db\<lparr>round_trips := n\<rparr>) = select_stocks syms db"
  by (simp add: select_stocks_def split: option.splits)

lemma executeQuery_healthy:
  assumes "healthy w" and "pool w = Some p" and "has_query p \<or> has_execute p"
  shows "executeQuery (query sel) n w =
           (Inr (sel (w\<lparr>round_trips := Suc (round_trips w)\<rparr>)), w\<lparr>round_trips := Suc (round_trips w)\<rparr>)"
  using assms
  by (auto simp: executeQuery.simps attempt_query_def run_statement_healthy query_def)

lemma scan_stocks_healthy:
  assumes "healthy w" and "pool w = Some p" and "has_query p \<or> has_execute p"
  shows "scan_stocks options a b found acc w =
           (Inr (acc @ concat (map (\<lambda>stock. stock_periods (gapThresholdMinutes options) a b
                    (fst stock) (snd stock) (select_timestamps (fst stock) a b w)) found)),
            w\<lparr>round_trips := round_trips w + length found\<rparr>)"
  using assms
proof (induction found arbitrary: acc w)
  case Nil
  then show ?case by simp
next
  case (Cons stock others)
  let ?w' = "w\<lparr>round_trips := Suc (round_trips w)\<rparr>"
  have q: "executeQuery (query (select_timestamps (fst stock) a b)) 3 w =
             (Inr (select_timestamps (fst stock) a b w), ?w')"
    using executeQuery_healthy [OF Cons.prems, of "select_timestamps (fst stock) a b" 3] by simp
  have h: "healthy ?w'" "pool ?w' = Some p" using Cons.prems by simp_all
  show ?case
    using Cons.IH [OF h Cons.prems(3)] by (simp add: q)
qed

lemma identifyMissingPeriods_healthy:
  assumes "healthy w" and "pool w = Some p" and "has_query p \<or> has_execute p"
  shows "identifyMissingPeriods options w =
           (Inr (concat (map (\<lambda>stock. stock_periods (gapThresholdMinutes options)
                    (fst (window (zone w) options (clock w))) (snd (window (zone w) options (clock w)))
                    (fst stock) (snd stock)
                    (select_timestamps (fst stock)
                       (fst (window (zone w) options (clock w))) (snd (window (zone w) options (clock w))) w))
                  (select_stocks (opt_symbols options) w))),
            w\<lparr>round_trips := Suc (round_trips w + length (select_stocks (opt_symbols options) w))\<rparr>)"
proof -
  let ?w' = "w\<lparr>round_trips := Suc (round_trips w)\<rparr>"
  have q: "executeQuery (query (select_stocks (opt_symbols options))) 3 w =
             (Inr (select_stocks (opt_symbols options) w), ?w')"
    using executeQuery_healthy [OF assms, of "select_stocks (opt_symbols options)" 3] by simp
  have h: "healthy ?w'" "pool ?w' = Some p" using assms by simp_all
  show ?thesis
    using scan_stocks_healthy [OF h assms(3)]
    by (simp add: identifyMissingPeriods_def q split: prod.splits)
qed

lemma select_timestamps_sorted_set:
  "sorted (select_timestamps sid a b db) \<and>
   set (select_timestamps sid a b db) =
     {timestamp r | r. r \<in> set (price_history db) \<and> stock_id r = sid \<and>
                       a \<le> timestamp r \<and> timestamp r \<le> b}"
  by (auto simp: select_timestamps_def)

lemma example_world_facts:
  "healthy example_world"
  "pool example_world = Some mysql_pool"
  "has_query mysql_pool"
  "clock example_world = 2400000"
  "select_stocks (opt_symbols example_options) example_world = [(1, ''AAPL'')]"
  "window (zone example_world) example_options 2400000 = (0, 2400000)"
  "gapThresholdMinutes example_options = 15"
  "select_timestamps 1 0 2400000 example_world = [0, 300000, 1800000]"
  by (simp_all add: healthy_def example_world_def mysql_pool_def select_stocks_def
        example_options_def window_def gapThresholdMinutes_def select_timestamps_def
        example_point_def)

lemma example_periods:
  "stock_periods 15 0 2400000 sid symb [0, 300000, 1800000] =
     [\<lparr>stockId = sid, symbol = symb, startTime = 360000, endTime = 1740000\<rparr>]"
  by (simp add: stock_periods_def js_numerals)

lemma upt_pred_Cons: "[0..<Suc n] = 0 # map Suc [0..<n]"
  by (simp add: upt_conv_Cons map_Suc_upt del: upt_Suc)

lemma pair_periods_list:
  "pair_periods thr sid symb ts =
     map (\<lambda>i. \<lparr>stockId = sid, symbol = symb,
                startTime = ts ! i + 60000, endTime = ts ! Suc i - 60000\<rparr>)
       (filter (\<lambda>i. thr < js_div (js_sub (of_int (ts ! Suc i)) (of_int (ts ! i))) 60000) [0..<length ts - 1])"
proof (induction thr sid symb ts rule: pair_periods.induct)
  case (1 thr sid symb p c rest)
  have u: "[0..<length (p # c # rest) - 1] = 0 # map Suc [0..<length (c # rest) - 1]"
    using upt_pred_Cons [of "length rest"] by simp
  show ?case
    unfolding u using 1 [OF refl]
    by (simp add: Let_def filter_map comp_def)
qed simp_all

lemma stock_periods_list:
  "stock_periods thr a b sid symb ts =
     (if ts = [] then [\<lparr>stockId = sid, symbol = symb, startTime = a, endTime = b\<rparr>]
      else
        map (\<lambda>i. \<lparr>stockId = sid, symbol = symb,
                   startTime = ts ! i + 60000, endTime = ts ! Suc i - 60000\<rparr>)
          (filter (\<lambda>i. thr < js_div (js_sub (of_int (ts ! Suc i)) (of_int (ts ! i))) 60000) [0..<length ts - 1])
        @ (if thr < js_div (js_sub (of_int (hd ts)) (of_int a)) 60000
           then [\<lparr>stockId = sid, symbol = symb, startTime = a, endTime = hd ts - 60000\<rparr>]
           else [])
        @ (if thr < js_div (js_sub (of_int b) (of_int (last ts))) 60000
           then [\<lparr>stockId = sid, symbol = symb, startTime = last ts + 60000, endTime = b\<rparr>]
           else []))"
proof (cases ts)
  case Nil
  then show ?thesis by (simp add: stock_periods_def)
next
  case (Cons t rest)
  have "stock_periods thr a b sid symb ts =
      pair_periods thr sid symb ts
      @ (if thr < js_div (js_sub (of_int (hd ts)) (of_int a)) 60000
         then [\<lparr>stockId = sid, symbol = symb, startTime = a, endTime = hd ts - 60000\<rparr>]
         else [])
      @ (if thr < js_div (js_sub (of_int b) (of_int (last ts))) 60000
         then [\<lparr>stockId = sid, symbol = symb, startTime = last ts + 60000, endTime = b\<rparr>]
         else [])"
    by (simp add: stock_periods_def Cons Let_def)
  then show ?thesis
    unfolding pair_periods_list [of thr sid symb ts] using Cons by simp
qed


lemma custom_world_facts:
  "healthy custom_world" "pool custom_world = Some mysql_pool"
  "has_query mysql_pool \<or> has_execute mysql_pool"
  by (simp_all add: custom_world_def example_world_def healthy_def mysql_pool_def)


text \<open>
  Claim C3. On a store whose round trips succeed, behind a pool with a query method, gap
  detection returns the following list, written here with the request and the tables alone.
  The window \<open>[a, b]\<close> is the requested one: the start of the request, by default seven days
  before now in the local time of the host, and its end, by default now. The threshold
  \<open>thr\<close> is the one of the request, 15 minutes when it gives none or zero. The stocks are the tracked ones, those with a
  requested symbol when the request names symbols, in table order. For each of them in turn,
  with \<open>ts\<close> the ascending list of its stored timestamps within the window: if \<open>ts\<close> is empty,
  the single period \<open>(a, b)\<close>; otherwise the periods \<open>(t\<^sub>i + 1 min, t\<^sub>i\<^sub>+\<^sub>1 - 1 min)\<close> of the
  consecutive points more than the threshold apart, in order, then the leading period
  \<open>(a, t\<^sub>1 - 1 min)\<close> if \<open>t\<^sub>1 - a\<close> is above the threshold, then the trailing period
  \<open>(t\<^sub>n + 1 min, b)\<close> if \<open>b - t\<^sub>n\<close> is above the threshold; and nothing else. A difference
  of two times is compared in minutes, as the double that the code computes; for a threshold
  that is a whole number of minutes and times less than \<open>2\<^sup>5\<^sup>3\<close> milliseconds apart, it is
  above the threshold exactly when the exact difference is.
\<close>

theorem identifyMissingPeriods_gaps:
  assumes "healthy w" and "pool w = Some p" and "has_query p \<or> has_execute p"
  shows
    "(let a = (case opt_startTime options of
                 Some t \<Rightarrow> t
               | None \<Rightarrow> utc_time (zone w) (local_time (zone w) (clock w) - 604800000));
          b = (case opt_endTime options of Some t \<Rightarrow> t | None \<Rightarrow> clock w);
          thr = (case opt_gapThreshold options of
                   Some t \<Rightarrow> if t = 0 then 15 else t
                 | None \<Rightarrow> 15);
          requested =
            (case opt_symbols options of
               Some syms \<Rightarrow>
                 if syms = [] then stocks w
                 else filter (\<lambda>stock. snd stock \<in> set syms) (stocks w)
             | None \<Rightarrow> stocks w);
          points = (\<lambda>sid. sort (map timestamp
                      (filter (\<lambda>r. stock_id r = sid \<and> a \<le> timestamp r \<and> timestamp r \<le> b)
                         (price_history w))));
          gap = (\<lambda>sid symb s e. \<lparr>stockId = sid, symbol = symb, startTime = s, endTime = e\<rparr>);
          gaps = (\<lambda>sid symb ts.
                    if ts = [] then [gap sid symb a b]
                    else
                      map (\<lambda>i. gap sid symb (ts ! i + 60000) (ts ! Suc i - 60000))
                        (filter
                           (\<lambda>i. thr < js_div (js_sub (of_int (ts ! Suc i)) (of_int (ts ! i))) 60000)
                           [0..<length ts - 1])
                      @ (if thr < js_div (js_sub (of_int (hd ts)) (of_int a)) 60000
                         then [gap sid symb a (hd ts - 60000)] else [])
                      @ (if thr < js_div (js_sub (of_int b) (of_int (last ts))) 60000
                         then [gap sid symb (last ts + 60000) b] else []))
      in fst (identifyMissingPeriods options w) =
           Inr (concat (map (\<lambda>stock. gaps (fst stock) (snd stock) (points (fst stock)))
                          requested))) \<and>
     (\<forall>T s t. 0 \<le> T \<longrightarrow> s \<le> t \<longrightarrow> t - s < 2 ^ 53 \<longrightarrow>
        (of_int T < js_div (js_sub (of_int t) (of_int s)) 60000 \<longleftrightarrow> T * 60000 < t - s))"
proof -
  have w: "window (zone w) options (clock w) =
      ((case opt_startTime options of
                 Some t \<Rightarrow> t
               | None \<Rightarrow> utc_time (zone w) (local_time (zone w) (clock w) - 604800000)),
       (case opt_endTime options of Some t \<Rightarrow> t | None \<Rightarrow> clock w))"
    by (simp add: window_def days_before_def Let_def)
  have s: "select_stocks (opt_symbols options) w =
      (case opt_symbols options of
         Some syms \<Rightarrow>
           if syms = [] then stocks w else filter (\<lambda>stock. snd stock \<in> set syms) (stocks w)
       | None \<Rightarrow> stocks w)"
    by (simp add: select_stocks_def split: option.splits)
  have t: "gapThresholdMinutes options =
      (case opt_gapThreshold options of Some t \<Rightarrow> if t = 0 then 15 else t | None \<Rightarrow> 15)"
    by (simp add: gapThresholdMinutes_def split: option.splits)
  have "fst (identifyMissingPeriods options w) =
      Inr (concat (map (\<lambda>stock. stock_periods (gapThresholdMinutes options)
             (fst (window (zone w) options (clock w))) (snd (window (zone w) options (clock w)))
             (fst stock) (snd stock)
             (select_timestamps (fst stock)
                (fst (window (zone w) options (clock w)))
                (snd (window (zone w) options (clock w))) w))
           (select_stocks (opt_symbols options) w)))"
    by (simp only: identifyMissingPeriods_healthy [OF assms] fst_conv)
  then have 1: "(let a = (case opt_startTime options of
                 Some t \<Rightarrow> t
               | None \<Rightarrow> utc_time (zone w) (local_time (zone w) (clock w) - 604800000));
          b = (case opt_endTime options of Some t \<Rightarrow> t | None \<Rightarrow> clock w);
          thr = (case opt_gapThreshold options of
                   Some t \<Rightarrow> if t = 0 then 15 else t
                 | None \<Rightarrow> 15);
          requested =
            (case opt_symbols options of
               Some syms \<Rightarrow>
                 if syms = [] then stocks w
                 else filter (\<lambda>stock. snd stock \<in> set syms) (stocks w)
             | None \<Rightarrow> stocks w);
          points = (\<lambda>sid. sort (map timestamp
                      (filter (\<lambda>r. stock_id r = sid \<and> a \<le> timestamp r \<and> timestamp r \<le> b)
                         (price_history w))));
          gap = (\<lambda>sid symb s e. \<lparr>stockId = sid, symbol = symb, startTime = s, endTime = e\<rparr>);
          gaps = (\<lambda>sid symb ts.
                    if ts = [] then [gap sid symb a b]
                    else
                      map (\<lambda>i. gap sid symb (ts ! i + 60000) (ts ! Suc i - 60000))
                        (filter
                           (\<lambda>i. thr < js_div (js_sub (of_int (ts ! Suc i)) (of_int (ts ! i))) 60000)
                           [0..<length ts - 1])
                      @ (if thr < js_div (js_sub (of_int (hd ts)) (of_int a)) 60000
                         then [gap sid symb a (hd ts - 60000)] else [])
                      @ (if thr < js_div (js_sub (of_int b) (of_int (last ts))) 60000
                         then [gap sid symb (last ts + 60000) b] else []))
      in fst (identifyMissingPeriods options w) =
           Inr (concat (map (\<lambda>stock. gaps (fst stock) (snd stock) (points (fst stock)))
                          requested)))"
    unfolding Let_def w fst_conv snd_conv s t stock_periods_list select_timestamps_def .
  have 2: "\<forall>T s t. 0 \<le> T \<longrightarrow> s \<le> t \<longrightarrow> t - s < 2 ^ 53 \<longrightarrow>
        (rat_of_int T < js_div (js_sub (of_int t) (of_int s)) 60000 \<longleftrightarrow> T * 60000 < t - s)"
    using minutes_between_exceed by blast
  show ?thesis using 1 2 by (rule conjI)
qed


theorem identifyMissingPeriods_gaps_witness:
  "healthy custom_world \<and> pool custom_world = Some mysql_pool \<and>
   (has_query mysql_pool \<or> has_execute mysql_pool) \<and>
   fst (identifyMissingPeriods custom_options custom_world) =
     Inr [\<lparr>stockId = 1, symbol = ''AAPL'', startTime = 1560000, endTime = 2940000\<rparr>,
          \<lparr>stockId = 1, symbol = ''AAPL'', startTime = 60000, endTime = 1140000\<rparr>,
          \<lparr>stockId = 1, symbol = ''AAPL'', startTime = 3060000, endTime = 4200000\<rparr>,
          \<lparr>stockId = 2, symbol = ''MSFT'', startTime = 60000, endTime = 4200000\<rparr>]"
proof -
  have u: "[0..<2] = [0, Suc 0]" by (simp add: upt_conv_Cons)
  have r: "fst (identifyMissingPeriods custom_options custom_world) =
     Inr [\<lparr>stockId = 1, symbol = ''AAPL'', startTime = 1560000, endTime = 2940000\<rparr>,
          \<lparr>stockId = 1, symbol = ''AAPL'', startTime = 60000, endTime = 1140000\<rparr>,
          \<lparr>stockId = 1, symbol = ''AAPL'', startTime = 3060000, endTime = 4200000\<rparr>,
          \<lparr>stockId = 2, symbol = ''MSFT'', startTime = 60000, endTime = 4200000\<rparr>]"
    using identifyMissingPeriods_gaps [OF custom_world_facts, of custom_options, THEN conjunct1]
    by (simp add: Let_def custom_options_def custom_world_def example_world_def
        example_point_def u js_numerals)
  show ?thesis
    using custom_world_facts r by blast
qed

text \<open>
  Claim C4, as amended. For a stock whose stored points in the window lie at minutes 0, 5 and
  30, with the threshold of 15 minutes and the window from minute 0 to minute 40, gap
  detection yields exactly one period, from minute 6 to minute 29: none between minutes 0 and
  5, and none after minute 30, because the 10 minutes from the last point to the end of the
  window do not exceed the threshold.
\<close>

theorem gap_example:
  assumes "healthy w" and "pool w = Some p" and "has_query p \<or> has_execute p"
    and "select_stocks (opt_symbols options) w = [(sid, symb)]"
    and "window (zone w) options (clock w) = (0, 2400000)"
    and "gapThresholdMinutes options = 15"
    and "select_timestamps sid 0 2400000 w = [0, 300000, 1800000]"
  shows "fst (identifyMissingPeriods options w) =
           Inr [\<lparr>stockId = sid, symbol = symb, startTime = 360000, endTime = 1740000\<rparr>]"
  using assms(4-7) by (simp add: identifyMissingPeriods_healthy [OF assms(1-3)] example_periods)

theorem gap_example_witness:
  "healthy example_world \<and> pool example_world = Some mysql_pool \<and>
   (has_query mysql_pool \<or> has_execute mysql_pool) \<and>
   select_stocks (opt_symbols example_options) example_world = [(1, ''AAPL'')] \<and>
   window (zone example_world) example_options (clock example_world) = (0, 2400000) \<and>
   gapThresholdMinutes example_options = 15 \<and>
   select_timestamps 1 0 2400000 example_world = [0, 300000, 1800000] \<and>
   fst (identifyMissingPeriods example_options example_world) =
     Inr [\<lparr>stockId = 1, symbol = ''AAPL'', startTime = 360000, endTime = 1740000\<rparr>]"
  using gap_example [of example_world mysql_pool example_options 1 "''AAPL''"]
  by (simp add: example_world_facts)

text \<open>
  The claim as first stated expects a second period from minute 31 to minute 40. At the example
  the result has one period, and that period is not in it.
\<close>

theorem gap_example_counterexample:
  "fst (identifyMissingPeriods example_options example_world) =
     Inr (stock_periods 15 0 2400000 1 ''AAPL'' (select_timestamps 1 0 2400000 example_world)) \<and>
   length (stock_periods 15 0 2400000 1 ''AAPL'' (select_timestamps 1 0 2400000 example_world)) = 1 \<and>
   \<lparr>stockId = 1, symbol = ''AAPL'', startTime = 1860000, endTime = 2400000\<rparr>
     \<notin> set (stock_periods 15 0 2400000 1 ''AAPL'' (select_timestamps 1 0 2400000 example_world))"
  by (simp add: identifyMissingPeriods_healthy [of example_world mysql_pool] example_world_facts
        example_periods)

subsection \<open>Retries of a failed query\<close>

text \<open>
  With a pool that has \<^verbatim>\<open>query\<close>, \<^verbatim>\<open>executeQuery\<close> is a single round trip whatever
  the number of retries. With \<^verbatim>\<open>execute\<close> only, a transient error is retried after a
  wait of one second while retries are left, and any other error is surfaced at once.
\<close>

lemma executeQuery_callback_pool:
  "pool w = Some p \<Longrightarrow> has_query p \<Longrightarrow> executeQuery statement retries w = run_statement statement w"
  by (simp add: executeQuery.simps attempt_query_def split: prod.splits)

lemma executeQuery_promise_pool_retry:
  assumes "pool w = Some p" and "\<not> has_query p" and "has_execute p"
    and "faults w (round_trips w) = Some err" and "transient err"
  shows "executeQuery statement (Suc retries) w =
           executeQuery statement retries (sleep 1000 (w\<lparr>round_trips := Suc (round_trips w)\<rparr>))"
  using assms
  by (simp add: executeQuery.simps [of statement "Suc retries"] attempt_query_def
        run_statement_def Let_def)

lemma executeQuery_promise_pool_exhausted:
  assumes "pool w = Some p" and "\<not> has_query p" and "has_execute p"
    and "faults w (round_trips w) = Some err"
  shows "executeQuery statement 0 w = (Inl err, w\<lparr>round_trips := Suc (round_trips w)\<rparr>)"
  using assms
  by (simp add: executeQuery.simps [of statement 0] attempt_query_def run_statement_def Let_def)

lemma executeQuery_promise_pool_permanent:
  assumes "pool w = Some p" and "\<not> has_query p" and "has_execute p"
    and "faults w (round_trips w) = Some err" and "\<not> transient err"
  shows "executeQuery statement retries w = (Inl err, w\<lparr>round_trips := Suc (round_trips w)\<rparr>)"
  using assms
  by (simp add: executeQuery.simps [of statement retries] attempt_query_def run_statement_def Let_def)

text \<open>
  Claim C2. The claim is that a query that fails with a classified-transient error is retried
  after a fixed wait, three times by default, before the error is surfaced. The code, at a
  store whose first round trip fails with \<^verbatim>\<open>ECONNRESET\<close> and whose second would succeed:
  behind the pool the server installs, \<^verbatim>\<open>executeQuery\<close> (3 retries) and
  \<^verbatim>\<open>executeQueryWithRetry\<close> (5 retries) both surface the error after one round trip and
  no wait; behind a pool with \<^verbatim>\<open>execute\<close> only, \<^verbatim>\<open>executeQuery\<close> waits one second,
  retries and returns the rows.
\<close>

theorem executeQuery_surfaces_first_transient_error:
  "transient econnreset \<and>
   pool flaky_world = Some mysql_pool \<and>
   faults flaky_world 0 = Some econnreset \<and> faults flaky_world 1 = None \<and>
   executeQuery (query (select_stocks None)) 3 flaky_world =
     (Inl econnreset, flaky_world\<lparr>round_trips := 1\<rparr>) \<and>
   executeQueryWithRetry (Some mysql_pool) (query (select_stocks None)) 5 flaky_world =
     (Inl econnreset, flaky_world\<lparr>round_trips := 1\<rparr>) \<and>
   executeQuery (query (select_stocks None)) 3 (flaky_world\<lparr>pool := Some promise_pool\<rparr>) =
     (Inr [(1, ''AAPL'')],
      flaky_world\<lparr>pool := Some promise_pool, round_trips := 2, clock := clock flaky_world + 1000\<rparr>)"
proof -
  have f: "round_trips flaky_world = 0" "pool flaky_world = Some mysql_pool"
    "faults flaky_world 0 = Some econnreset" "faults flaky_world 1 = None"
    by (simp_all add: flaky_world_def example_world_def)
  have t: "transient econnreset"
    by (simp add: transient_def econnreset_def)
  have r: "run_statement (query (select_stocks None)) flaky_world =
             (Inl econnreset, flaky_world\<lparr>round_trips := 1\<rparr>)"
    by (simp add: run_statement_def f Let_def)
  have a: "executeQuery (query (select_stocks None)) 3 flaky_world =
     (Inl econnreset, flaky_world\<lparr>round_trips := 1\<rparr>)"
    using executeQuery_callback_pool [OF f(2), of "query (select_stocks None)" 3] r
    by (simp add: mysql_pool_def)
  have b: "executeQueryWithRetry (Some mysql_pool) (query (select_stocks None)) 5 flaky_world =
     (Inl econnreset, flaky_world\<lparr>round_trips := 1\<rparr>)"
    by (simp add: executeQueryWithRetry_def r)
  have c: "executeQuery (query (select_stocks None)) 3 (flaky_world\<lparr>pool := Some promise_pool\<rparr>) =
     (Inr [(1, ''AAPL'')],
      flaky_world\<lparr>pool := Some promise_pool, round_trips := 2, clock := clock flaky_world + 1000\<rparr>)"
    by (simp add: executeQuery.simps [of _ 3] executeQuery.simps [of _ 2] attempt_query_def
          run_statement_def Let_def f t promise_pool_def sleep_def query_def select_stocks_def
          flaky_world_def example_world_def)
  show ?thesis
    using t f a b c by blast
qed

subsection \<open>What the store operations leave alone\<close>

lemma same_jobs_refl [simp]: "same_jobs w w"
  by (simp add: same_jobs_def)

lemma same_jobs_trans: "same_jobs a b \<Longrightarrow> same_jobs b c \<Longrightarrow> same_jobs a c"
  by (simp add: same_jobs_def)

lemma same_jobs_round_trips [simp]: "same_jobs w (w'\<lparr>round_trips := n\<rparr>) = same_jobs w w'"
  by (simp add: same_jobs_def)

lemma same_jobs_sleep [simp]: "same_jobs w (sleep ms w') = same_jobs w w'"
  by (simp add: same_jobs_def sleep_def)

lemma run_statement_same_jobs:
  assumes "\<And>x. same_jobs x (snd (statement x))"
  shows "same_jobs w (snd (run_statement statement w))"
proof -
  have "same_jobs w (snd (statement (w\<lparr>round_trips := Suc (round_trips w)\<rparr>)))"
    using assms [of "w\<lparr>round_trips := Suc (round_trips w)\<rparr>"]
    by (simp add: same_jobs_def)
  then show ?thesis
    by (simp add: run_statement_def Let_def split: option.splits)
qed

lemma query_same_jobs: "same_jobs x (snd (query sel x))"
  by (simp add: query_def)

lemma round_trip_same_jobs: "same_jobs w (snd (round_trip w))"
  unfolding round_trip_def by (rule run_statement_same_jobs) simp

lemma upsert_price_same_jobs: "same_jobs x (snd (upsert_price sid p v ts x))"
  by (simp add: upsert_price_def same_jobs_def)

lemma upsert_aggregate_same_jobs: "same_jobs x (snd (upsert_aggregate sid opn hi lo cl v ts x))"
  by (simp add: upsert_aggregate_def same_jobs_def)

lemma attempt_query_same_jobs:
  assumes "\<And>x. same_jobs x (snd (statement x))"
  shows "same_jobs w (snd (attempt_query p statement w))"
  using run_statement_same_jobs [OF assms, of w]
  by (auto simp: attempt_query_def split: prod.splits sum.splits)

lemma executeQuery_same_jobs:
  assumes "\<And>x. same_jobs x (snd (statement x))"
  shows "same_jobs w (snd (executeQuery statement retries w))"
  using assms
proof (induction statement retries w rule: executeQuery.induct)
  case (1 statement retries w)
  show ?case
  proof (cases "pool w")
    case None
    then show ?thesis by (simp add: executeQuery.simps [of statement retries w])
  next
    case (Some p)
    obtain a w' where a: "attempt_query p statement w = (a, w')"
      by (cases "attempt_query p statement w")
    have s: "same_jobs w w'"
      using attempt_query_same_jobs [OF "1.prems", of w p] a by simp
    show ?thesis
    proof (cases a)
      case (Returned outcome)
      then show ?thesis
        using s by (simp add: executeQuery.simps [of statement retries w] Some a)
    next
      case (Caught err)
      show ?thesis
      proof (cases "0 < retries \<and> transient err")
        case True
        have "same_jobs (sleep 1000 w') (snd (executeQuery statement (retries - 1) (sleep 1000 w')))"
          using "1.IH" [OF Some a [symmetric] Caught True] "1.prems" by blast
        then have "same_jobs w (snd (executeQuery statement (retries - 1) (sleep 1000 w')))"
          using s by (simp add: same_jobs_def sleep_def)
        then show ?thesis
          using True by (simp add: executeQuery.simps [of statement retries w] Some a Caught)
      next
        case False
        then show ?thesis
          using s by (auto simp: executeQuery.simps [of statement retries w] Some a Caught)
      qed
    qed
  qed
qed

lemma scan_stocks_same_jobs:
  "same_jobs w (snd (scan_stocks options a b found acc w))"
proof (induction found arbitrary: acc w)
  case Nil
  then show ?case by simp
next
  case (Cons stock others)
  obtain r w' where q: "executeQuery (query (select_timestamps (fst stock) a b)) 3 w = (r, w')"
    by (cases "executeQuery (query (select_timestamps (fst stock) a b)) 3 w")
  have s: "same_jobs w w'"
    using executeQuery_same_jobs
            [where statement = "query (select_timestamps (fst stock) a b)", OF query_same_jobs, of w 3] q
    by simp
  show ?case
  proof (cases r)
    case (Inl err)
    then show ?thesis using s by (simp add: q)
  next
    case (Inr priceHistory)
    then show ?thesis
      using same_jobs_trans [OF s Cons.IH] by (simp add: q)
  qed
qed

lemma identifyMissingPeriods_same_jobs:
  "same_jobs w (snd (identifyMissingPeriods options w))"
proof -
  obtain r w' where q: "executeQuery (query (select_stocks (opt_symbols options))) 3 w = (r, w')"
    by (cases "executeQuery (query (select_stocks (opt_symbols options))) 3 w")
  have s: "same_jobs w w'"
    using executeQuery_same_jobs
            [where statement = "query (select_stocks (opt_symbols options))", OF query_same_jobs, of w 3] q
    by simp
  show ?thesis
  proof (cases r)
    case (Inl err)
    then show ?thesis using s by (simp add: identifyMissingPeriods_def q)
  next
    case (Inr found)
    then show ?thesis
      using s same_jobs_trans [OF s scan_stocks_same_jobs]
      by (simp add: identifyMissingPeriods_def q split: prod.splits)
  qed
qed

lemma run_on_same_jobs:
  assumes "\<And>x. same_jobs x (snd (statement x))"
  shows "same_jobs w (snd (run_on conn statement w))"
  using run_statement_same_jobs [OF assms, of w]
  by (simp add: run_on_def split: connection.splits)

lemma write_points_same_jobs:
  "same_jobs w (snd (write_points conn tf sid pts w))"
proof (induction pts arbitrary: w)
  case Nil
  then show ?case by simp
next
  case (Cons point others)
  let ?up = "upsert_price sid (p_price point) (js_or (p_volume point) 0) (p_time point)"
  let ?ua = "upsert_aggregate sid (js_or (p_open point) (p_price point))
      (js_or (p_high point) (p_price point)) (js_or (p_low point) (p_price point))
      (p_price point) (js_or (p_volume point) 0) (p_time point)"
  obtain r1 w1 where r1: "run_on conn ?up w = (r1, w1)" by (cases "run_on conn ?up w")
  obtain r2 w2 where r2: "run_on conn ?ua w1 = (r2, w2)" by (cases "run_on conn ?ua w1")
  have s1: "same_jobs w w1"
    using run_on_same_jobs [where statement = ?up, OF upsert_price_same_jobs, of w conn] r1 by simp
  have s2: "same_jobs w1 w2"
    using run_on_same_jobs [where statement = ?ua, OF upsert_aggregate_same_jobs, of w1 conn] r2 by simp
  have s12: "same_jobs w w2" using same_jobs_trans [OF s1 s2] .
  show ?case
    using s1 s12 same_jobs_trans [OF s1 Cons.IH [of w1]] same_jobs_trans [OF s12 Cons.IH [of w2]]
    by (cases "tf = minute") (auto simp: r1 r2 Let_def split: sum.splits)
qed

lemma transaction_same_jobs:
  "same_jobs w (snd (transaction conn tf sid pts w))"
proof -
  have b: "same_jobs x (snd (beginTransaction conn x))" for x
    using round_trip_same_jobs [of x] by (simp add: beginTransaction_def split: connection.splits)
  have c: "same_jobs x (snd (commitTransaction conn x))" for x
    using round_trip_same_jobs [of x] by (simp add: commitTransaction_def split: connection.splits)
  obtain r1 w1 where r1: "beginTransaction conn w = (r1, w1)" by (cases "beginTransaction conn w")
  obtain r2 w2 where r2: "write_points conn tf sid pts w1 = (r2, w2)"
    by (cases "write_points conn tf sid pts w1")
  have s1: "same_jobs w w1" using b [of w] r1 by simp
  have s2: "same_jobs w1 w2" using write_points_same_jobs [of w1 conn tf sid pts] r2 by simp
  have s12: "same_jobs w w2" using same_jobs_trans [OF s1 s2] .
  show ?thesis
    using s1 s12 same_jobs_trans [OF s12 c [of w2]]
    by (simp add: transaction_def r1 r2 split: sum.splits)
qed

lemma backfillPeriod_same_jobs:
  "same_jobs w (snd (backfillPeriod upstream sid symb startT endT w))"
proof -
  have g: "same_jobs x (snd (getConnection x))" for x
    using round_trip_same_jobs [of x]
    by (auto simp: getConnection_def split: option.splits prod.splits sum.splits)
  have r: "same_jobs x y \<Longrightarrow> same_jobs x (rollbackTransaction conn z y)" for x y z conn
    by (simp add: rollbackTransaction_def same_jobs_def split: connection.splits)
  obtain r1 w1 where r1: "getConnection w = (r1, w1)" by (cases "getConnection w")
  have s1: "same_jobs w w1" using g [of w] r1 by simp
  have t: "same_jobs w y" if "transaction conn tf sid pts w1 = (r, y)" for conn tf pts r y
    using same_jobs_trans [OF s1 transaction_same_jobs [of w1 conn tf sid pts]] that by simp
  show ?thesis
    using s1 t r
    by (auto simp: backfillPeriod_def r1 split: option.splits sum.splits prod.splits)
qed

subsection \<open>The job through a run\<close>

lemma updateJobStatus_fields [simp]:
  "backfillJobs (updateJobStatus jobId u w) =
     (backfillJobs w)(jobId \<mapsto> (case backfillJobs w jobId of Some j \<Rightarrow> j | None \<Rightarrow> Map.empty) ++ u)"
  "job_history (updateJobStatus jobId u w) =
     job_history w @ [(jobId, (case backfillJobs w jobId of Some j \<Rightarrow> j | None \<Rightarrow> Map.empty) ++ u)]"
  "pool (updateJobStatus jobId u w) = pool w"
  "clock (updateJobStatus jobId u w) = clock w"
  by (simp_all add: updateJobStatus_def jobs_set_def Let_def)

lemma jobs_set_fields [simp]:
  "backfillJobs (jobs_set jobId j w) = (backfillJobs w)(jobId \<mapsto> j)"
  "job_history (jobs_set jobId j w) = job_history w @ [(jobId, j)]"
  "pool (jobs_set jobId j w) = pool w"
  "clock (jobs_set jobId j w) = clock w"
  by (simp_all add: jobs_set_def)

lemma sleep_fields [simp]:
  "backfillJobs (sleep ms w) = backfillJobs w"
  "job_history (sleep ms w) = job_history w"
  "pool (sleep ms w) = pool w"
  by (simp_all add: sleep_def)

lemma loop_inv_same_jobs:
  "same_jobs w w' \<Longrightarrow> loop_inv k jobId i n w \<Longrightarrow> loop_inv k jobId i n w'"
  by (simp add: loop_inv_def same_jobs_def)

lemma loop_inv_sleep [simp]: "loop_inv k jobId i n (sleep ms w) = loop_inv k jobId i n w"
  by (simp add: loop_inv_def)

lemma progress_full: "0 < n \<Longrightarrow> progress_of n n = 100"
  by (simp add: progress_of_def js_round_def js_numerals floor_eq_iff)

lemma history_ok_snoc:
  assumes "history_ok js"
    and "\<forall>x \<in> set js. processed_of x \<le> processed_of j"
    and "\<forall>t. total_of j = Some t \<longrightarrow> processed_of j \<le> t"
    and "status_in j = Some completed \<longrightarrow> progress_in j = Some 100"
  shows "history_ok (js @ [j])"
  using assms by (auto simp: history_ok_def sorted_append)

lemma loop_inv_step:
  assumes inv: "loop_inv k jobId i n w" and lt: "i < n"
    and u: "u f_processedPeriods = Some (JNum (int (Suc i)))"
           "u f_progress = Some (JNum (progress_of (Suc i) n))"
           "u f_status = None" "u f_totalPeriods = None"
           "u f_errors = None \<or> (\<exists>es. u f_errors = Some (JErrors es))"
  shows "loop_inv k jobId (Suc i) n (updateJobStatus jobId u w)"
proof -
  from inv obtain job es where
    job: "backfillJobs w jobId = Some job"
      "job f_processedPeriods = Some (JNum (int i))"
      "job f_totalPeriods = Some (JNum (int n))"
      "job f_status = Some (JStatus processing)"
      "job f_errors = Some (JErrors es)"
    and k: "k < length (job_history w)"
    and h: "history_ok (map snd (drop k (job_history w)))"
    and b: "\<forall>j \<in> set (map snd (drop k (job_history w))). processed_of j \<le> int i"
    unfolding loop_inv_def by blast
  let ?j = "job ++ u"
  have f: "?j f_processedPeriods = Some (JNum (int (Suc i)))"
          "?j f_totalPeriods = Some (JNum (int n))"
          "?j f_status = Some (JStatus processing)"
          "?j f_progress = Some (JNum (progress_of (Suc i) n))"
    using job u by (simp_all add: map_add_def)
  have e: "\<exists>es'. ?j f_errors = Some (JErrors es')"
    using job u(5) by (auto simp: map_add_def)
  have p: "processed_of ?j = int (Suc i)" "total_of ?j = Some (int n)"
          "status_in ?j = Some processing"
    using f by (simp_all add: processed_of_def total_of_def status_in_def)
  have hk: "history_ok (map snd (drop k (job_history w)) @ [?j])"
    using h b p lt by (intro history_ok_snoc) auto
  have pr: "Suc i = n \<longrightarrow> ?j f_progress = Some (JNum 100)"
    using f(4) progress_full [of n] lt by auto
  show ?thesis
    unfolding loop_inv_def
    using job(1) f e p hk pr k b lt
    by (auto simp: less_eq_Suc_le)
qed

lemma errors_of_inv:
  "loop_inv k jobId i n w \<Longrightarrow> \<exists>es. errors_of (backfillJobs w jobId) = Inr es"
  by (auto simp: loop_inv_def errors_of_def)

lemma process_periods_runs:
  assumes "loop_inv k jobId i n w" and "i + length gs = n"
  shows "\<exists>w'. process_periods upstream jobId gs i n w = (Inr (), w') \<and>
              loop_inv k jobId n n w' \<and> pool w' = pool w"
  using assms
proof (induction gs arbitrary: i w)
  case Nil
  then show ?case by simp
next
  case (Cons g gs)
  obtain r w1 where bp: "backfillPeriod upstream (stockId g) (symbol g) (startTime g) (endTime g) w = (r, w1)"
    by (cases "backfillPeriod upstream (stockId g) (symbol g) (startTime g) (endTime g) w")
  have sj: "same_jobs w w1"
    using backfillPeriod_same_jobs [of w upstream "stockId g" "symbol g" "startTime g" "endTime g"] bp
    by simp
  have inv1: "loop_inv k jobId i n w1"
    using loop_inv_same_jobs [OF sj Cons.prems(1)] .
  have lt: "i < n" using Cons.prems(2) by simp
  have len: "Suc i + length gs = n" using Cons.prems(2) by simp
  have p1: "pool w1 = pool w" using sj by (simp add: same_jobs_def)
  show ?case
  proof (cases r)
    case (Inr pts)
    let ?u = "[f_processedPeriods \<mapsto> JNum (int (Suc i)), f_progress \<mapsto> JNum (progress_of (Suc i) n)]"
    have "loop_inv k jobId (Suc i) n (sleep 1000 (updateJobStatus jobId ?u w1))"
      using loop_inv_step [OF inv1 lt, of ?u] by simp
    from Cons.IH [OF this len] show ?thesis
      using p1 by (simp add: bp Inr)
  next
    case (Inl periodError)
    obtain es where es: "errors_of (backfillJobs w1 jobId) = Inr es"
      using errors_of_inv [OF inv1] by blast
    let ?u = "[f_errors \<mapsto> JErrors (es @ [PeriodError (symbol g) (startTime g) (endTime g)
                 (error_message periodError)]),
               f_processedPeriods \<mapsto> JNum (int (Suc i)),
               f_progress \<mapsto> JNum (progress_of (Suc i) n)]"
    have "loop_inv k jobId (Suc i) n (sleep 1000 (updateJobStatus jobId ?u w1))"
      using loop_inv_step [OF inv1 lt, of ?u] by simp
    from Cons.IH [OF this len] show ?thesis
      using p1 by (simp add: bp Inl es)
  qed
qed

lemma loop_inv_finish:
  assumes inv: "loop_inv k jobId n n w"
    and u: "u f_status = Some (JStatus completed)"
           "u f_processedPeriods = None" "u f_totalPeriods = None" "u f_errors = None"
           "n = 0 \<longrightarrow> u f_progress = Some (JNum 100)"
           "0 < n \<longrightarrow> u f_progress = None"
  shows "\<exists>job. backfillJobs (updateJobStatus jobId u w) jobId = Some job \<and>
           map snd (drop k (job_history (updateJobStatus jobId u w))) \<noteq> [] \<and>
           last (map snd (drop k (job_history (updateJobStatus jobId u w)))) = job \<and>
           status_in job = Some completed \<and> processed_of job = int n \<and>
           progress_in job = Some 100 \<and> total_of job = Some (int n) \<and>
           (\<exists>es. errors_in job = Some es) \<and>
           history_ok (map snd (drop k (job_history (updateJobStatus jobId u w))))"
proof -
  from inv obtain job es where
    job: "backfillJobs w jobId = Some job"
      "job f_processedPeriods = Some (JNum (int n))"
      "job f_totalPeriods = Some (JNum (int n))"
      "job f_errors = Some (JErrors es)"
      "0 < n \<longrightarrow> job f_progress = Some (JNum 100)"
    and k: "k < length (job_history w)"
    and h: "history_ok (map snd (drop k (job_history w)))"
    and b: "\<forall>j \<in> set (map snd (drop k (job_history w))). processed_of j \<le> int n"
    unfolding loop_inv_def by blast
  let ?j = "job ++ u"
  have f: "?j f_processedPeriods = Some (JNum (int n))"
          "?j f_totalPeriods = Some (JNum (int n))"
          "?j f_status = Some (JStatus completed)"
          "?j f_errors = Some (JErrors es)"
          "?j f_progress = Some (JNum 100)"
    using job u by (auto simp: map_add_def)
  have p: "processed_of ?j = int n" "total_of ?j = Some (int n)"
          "status_in ?j = Some completed" "progress_in ?j = Some 100"
          "errors_in ?j = Some es"
    using f by (simp_all add: processed_of_def total_of_def status_in_def progress_in_def errors_in_def)
  have hk: "history_ok (map snd (drop k (job_history w)) @ [?j])"
    using h b p by (intro history_ok_snoc) auto
  show ?thesis
    using job(1) p hk k by auto
qed

lemma initial_job_fields [simp]:
  "initial_job jobId now f_processedPeriods = Some (JNum 0)"
  "initial_job jobId now f_totalPeriods = None"
  "initial_job jobId now f_status = Some (JStatus running)"
  "initial_job jobId now f_errors = Some (JErrors [])"
  "initial_job jobId now f_progress = Some (JNum 0)"
  by (simp_all add: initial_job_def)

lemma started_fields:
  "backfillJobs (started jobId w) jobId =
     Some (initial_job jobId (clock w) ++ [f_status \<mapsto> JStatus identifying_gaps])"
  "job_history (started jobId w) =
     job_history w @ [(jobId, initial_job jobId (clock w)),
                      (jobId, initial_job jobId (clock w) ++ [f_status \<mapsto> JStatus identifying_gaps])]"
  "pool (started jobId w) = pool w"
  by (simp_all add: started_def)

lemma loop_inv_start:
  assumes "same_jobs (started jobId w) w2"
  shows "loop_inv (length (job_history w)) jobId 0 n
           (updateJobStatus jobId
              [f_missingPeriods \<mapsto> JPeriods gaps, f_status \<mapsto> JStatus processing,
               f_totalPeriods \<mapsto> JNum (int n)] w2)"
proof -
  have j2: "backfillJobs w2 jobId =
     Some (initial_job jobId (clock w) ++ [f_status \<mapsto> JStatus identifying_gaps])"
    and h2: "job_history w2 =
     job_history w @ [(jobId, initial_job jobId (clock w)),
                      (jobId, initial_job jobId (clock w) ++ [f_status \<mapsto> JStatus identifying_gaps])]"
    using assms by (simp_all add: same_jobs_def started_fields)
  show ?thesis
    unfolding loop_inv_def
    by (simp add: j2 h2 history_ok_def processed_of_def total_of_def status_in_def
          progress_in_def map_add_def)
qed

lemma performBackfill_no_pool:
  assumes "pool w = None"
  shows "\<exists>w' job. performBackfill upstream uuid options w =
             (Inl (JsError None ''Database pool not initialized''), w') \<and>
           backfillJobs w' (job_id_of uuid options) = Some job \<and>
           run_history w w' \<noteq> [] \<and> last (run_history w w') = job \<and>
           status_in job = Some failed \<and> processed_of job = 0 \<and>
           progress_in job = Some 0 \<and> total_of job = None \<and> errors_in job = Some [] \<and>
           history_ok (run_history w w')"
  using assms
  by (simp add: performBackfill_def try_backfill_def Let_def run_history_def history_ok_def
        processed_of_def total_of_def status_in_def progress_in_def errors_in_def map_add_def)

lemma performBackfill_identify_fails:
  assumes "pool w = Some p"
    and "identifyMissingPeriods options (started (job_id_of uuid options) w) = (Inl err, w2)"
  shows "\<exists>w' job. performBackfill upstream uuid options w = (Inl err, w') \<and>
           backfillJobs w' (job_id_of uuid options) = Some job \<and>
           run_history w w' \<noteq> [] \<and> last (run_history w w') = job \<and>
           status_in job = Some failed \<and> processed_of job = 0 \<and>
           progress_in job = Some 0 \<and> total_of job = None \<and> errors_in job = Some [] \<and>
           history_ok (run_history w w')"
proof -
  let ?jobId = "job_id_of uuid options"
  have sj: "same_jobs (started ?jobId w) w2"
    using identifyMissingPeriods_same_jobs [of "started ?jobId w" options] assms(2) by simp
  have j2: "backfillJobs w2 ?jobId =
     Some (initial_job ?jobId (clock w) ++ [f_status \<mapsto> JStatus identifying_gaps])"
    and h2: "job_history w2 =
     job_history w @ [(?jobId, initial_job ?jobId (clock w)),
                      (?jobId, initial_job ?jobId (clock w) ++ [f_status \<mapsto> JStatus identifying_gaps])]"
    using sj by (simp_all add: same_jobs_def started_fields)
  have t: "try_backfill upstream ?jobId options (jobs_set ?jobId (initial_job ?jobId (clock w)) w)
             = (Inl err, w2)"
    using assms by (simp add: try_backfill_def started_def [symmetric])
  show ?thesis
    by (simp add: performBackfill_def Let_def t j2 h2 run_history_def history_ok_def
          processed_of_def total_of_def status_in_def progress_in_def errors_in_def map_add_def)
qed

lemma performBackfill_completes:
  assumes "pool w = Some p"
    and "identifyMissingPeriods options (started (job_id_of uuid options) w) = (Inr gaps, w2)"
  shows "\<exists>w' job. performBackfill upstream uuid options w = (Inr (job_id_of uuid options), w') \<and>
           backfillJobs w' (job_id_of uuid options) = Some job \<and>
           run_history w w' \<noteq> [] \<and> last (run_history w w') = job \<and>
           status_in job = Some completed \<and> processed_of job = int (length gaps) \<and>
           progress_in job = Some 100 \<and> total_of job = Some (int (length gaps)) \<and>
           (\<exists>es. errors_in job = Some es) \<and>
           history_ok (run_history w w')"
proof -
  let ?jobId = "job_id_of uuid options"
  let ?k = "length (job_history w)"
  let ?n = "length gaps"
  let ?w3 = "updateJobStatus ?jobId
              [f_missingPeriods \<mapsto> JPeriods gaps, f_status \<mapsto> JStatus processing,
               f_totalPeriods \<mapsto> JNum (int ?n)] w2"
  have sj: "same_jobs (started ?jobId w) w2"
    using identifyMissingPeriods_same_jobs [of "started ?jobId w" options] assms(2) by simp
  have inv0: "loop_inv ?k ?jobId 0 ?n ?w3"
    using loop_inv_start [OF sj] .
  have fin: "\<exists>w' job. performBackfill upstream uuid options w = (Inr ?jobId, w') \<and>
           backfillJobs w' ?jobId = Some job \<and>
           run_history w w' \<noteq> [] \<and> last (run_history w w') = job \<and>
           status_in job = Some completed \<and> processed_of job = int ?n \<and>
           progress_in job = Some 100 \<and> total_of job = Some (int ?n) \<and>
           (\<exists>es. errors_in job = Some es) \<and>
           history_ok (run_history w w')"
    if t: "try_backfill upstream ?jobId options (jobs_set ?jobId (initial_job ?jobId (clock w)) w)
             = (Inr (), updateJobStatus ?jobId u wl)"
      and inv: "loop_inv ?k ?jobId ?n ?n wl"
      and u: "u f_status = Some (JStatus completed)"
           "u f_processedPeriods = None" "u f_totalPeriods = None" "u f_errors = None"
           "?n = 0 \<longrightarrow> u f_progress = Some (JNum 100)"
           "0 < ?n \<longrightarrow> u f_progress = None"
    for u wl
  proof -
    define wf where "wf = updateJobStatus ?jobId u wl"
    have pb: "performBackfill upstream uuid options w = (Inr ?jobId, wf)"
      by (simp add: performBackfill_def Let_def t wf_def)
    from loop_inv_finish [OF inv u] obtain job where
      "backfillJobs wf ?jobId = Some job"
      "run_history w wf \<noteq> []" "last (run_history w wf) = job"
      "status_in job = Some completed" "processed_of job = int ?n"
      "progress_in job = Some 100" "total_of job = Some (int ?n)"
      "\<exists>es. errors_in job = Some es"
      "history_ok (run_history w wf)"
      unfolding wf_def run_history_def by blast
    then show ?thesis
      using pb by blast
  qed
  show ?thesis
  proof (cases "gaps = []")
    case True
    let ?u = "[f_status \<mapsto> JStatus completed, f_progress \<mapsto> JNum 100,
               f_completed \<mapsto> JBool True, f_completedAt \<mapsto> JDate (clock ?w3),
               f_message \<mapsto> JStr ''No data gaps found that require backfilling'']"
    have t: "try_backfill upstream ?jobId options (jobs_set ?jobId (initial_job ?jobId (clock w)) w)
             = (Inr (), updateJobStatus ?jobId ?u ?w3)"
      using assms True by (simp add: try_backfill_def started_def [symmetric] Let_def)
    have inv: "loop_inv ?k ?jobId ?n ?n ?w3" using inv0 True by simp
    show ?thesis
      by (rule fin [OF t inv]) (simp_all add: True)
  next
    case False
    obtain w4 where loop: "process_periods upstream ?jobId gaps 0 ?n ?w3 = (Inr (), w4)"
      and inv: "loop_inv ?k ?jobId ?n ?n w4"
      using process_periods_runs [OF inv0, of gaps upstream] by auto
    let ?u = "[f_status \<mapsto> JStatus completed, f_completed \<mapsto> JBool True,
               f_completedAt \<mapsto> JDate (clock w4)]"
    have t: "try_backfill upstream ?jobId options (jobs_set ?jobId (initial_job ?jobId (clock w)) w)
             = (Inr (), updateJobStatus ?jobId ?u w4)"
      using assms False loop by (simp add: try_backfill_def started_def [symmetric] Let_def)
    show ?thesis
      by (rule fin [OF t inv]) (simp_all add: False)
  qed
qed

subsection \<open>Runs on the example data\<close>

lemma jobs_set_db [simp]:
  "faults (jobs_set jobId j w) = faults w"
  "round_trips (jobs_set jobId j w) = round_trips w"
  "stocks (jobs_set jobId j w) = stocks w"
  "price_history (jobs_set jobId j w) = price_history w"
  "aggregate_history (jobs_set jobId j w) = aggregate_history w"
  "unique_timestamps (jobs_set jobId j w) = unique_timestamps w"
  by (simp_all add: jobs_set_def)

lemma updateJobStatus_db [simp]:
  "faults (updateJobStatus jobId u w) = faults w"
  "round_trips (updateJobStatus jobId u w) = round_trips w"
  "stocks (updateJobStatus jobId u w) = stocks w"
  "price_history (updateJobStatus jobId u w) = price_history w"
  "aggregate_history (updateJobStatus jobId u w) = aggregate_history w"
  "unique_timestamps (updateJobStatus jobId u w) = unique_timestamps w"
  by (simp_all add: updateJobStatus_def Let_def)

lemma started_db [simp]:
  "faults (started jobId w) = faults w"
  "round_trips (started jobId w) = round_trips w"
  "stocks (started jobId w) = stocks w"
  "price_history (started jobId w) = price_history w"
  "clock (started jobId w) = clock w"
  "zone (started jobId w) = zone w"
  by (simp_all add: started_def updateJobStatus_def jobs_set_def Let_def)

lemma started_reads [simp]:
  "healthy (started jobId w) = healthy w"
  "select_stocks syms (started jobId w) = select_stocks syms w"
  "select_timestamps sid a b (started jobId w) = select_timestamps sid a b w"
  by (simp_all add: healthy_def select_stocks_def select_timestamps_def split: option.splits)

lemma example_identify:
  "identifyMissingPeriods example_options (started jobId example_world) =
     (Inr [\<lparr>stockId = 1, symbol = ''AAPL'', startTime = 360000, endTime = 1740000\<rparr>],
      (started jobId example_world)\<lparr>round_trips := 2\<rparr>)"
  using identifyMissingPeriods_healthy [of "started jobId example_world" mysql_pool example_options]
  by (simp add: example_world_facts started_fields example_periods)
     (simp add: example_world_def)

lemma example_job_id [simp]: "job_id_of uuid example_options = uuid"
  by (simp add: job_id_of_def example_options_def)

lemma try_backfill_started:
  assumes "pool w = Some p"
  shows "try_backfill upstream jobId options (jobs_set jobId (initial_job jobId (clock w)) w) =
     (case identifyMissingPeriods options (started jobId w) of
        (Inl err, w2) \<Rightarrow> (Inl err, w2)
      | (Inr missingPeriods, w2) \<Rightarrow>
          (let w3 = updateJobStatus jobId
                      [f_missingPeriods \<mapsto> JPeriods missingPeriods,
                       f_status \<mapsto> JStatus processing,
                       f_totalPeriods \<mapsto> JNum (int (length missingPeriods))] w2
           in if length missingPeriods = 0 then
                (Inr (),
                 updateJobStatus jobId
                   [f_status \<mapsto> JStatus completed, f_progress \<mapsto> JNum 100,
                    f_completed \<mapsto> JBool True, f_completedAt \<mapsto> JDate (clock w3),
                    f_message \<mapsto> JStr ''No data gaps found that require backfilling''] w3)
              else
                (case process_periods upstream jobId missingPeriods 0
                        (length missingPeriods) w3 of
                   (Inl err, w4) \<Rightarrow> (Inl err, w4)
                 | (Inr _, w4) \<Rightarrow>
                     (Inr (),
                      updateJobStatus jobId
                        [f_status \<mapsto> JStatus completed, f_completed \<mapsto> JBool True,
                         f_completedAt \<mapsto> JDate (clock w4)] w4))))"
  using assms by (simp add: try_backfill_def started_def)

lemma example_run_failing:
  "errors_in (the (backfillJobs (snd (performBackfill failing_upstream ''job-1'' example_options example_world)) ''job-1''))
    = Some [PeriodError ''AAPL'' 360000 1740000 ''timeout of 15000ms exceeded'']"
  by (simp add: performBackfill_def Let_def try_backfill_started [OF example_world_facts(2)]
       example_identify example_world_facts(2) started_fields backfillPeriod_def failing_upstream_def
       errors_of_def errors_in_def map_add_def)

lemma example_run_empty:
  "map processed_of (run_history example_world (snd (performBackfill empty_upstream ''job-1'' example_options example_world)))
    = [0, 0, 0, 1, 1]"
  "map status_in (run_history example_world (snd (performBackfill empty_upstream ''job-1'' example_options example_world)))
    = [Some running, Some identifying_gaps, Some processing, Some processing, Some completed]"
  "map progress_in (run_history example_world (snd (performBackfill empty_upstream ''job-1'' example_options example_world)))
    = [Some 0, Some 0, Some 0, Some 100, Some 100]"
  by (simp_all add: performBackfill_def Let_def try_backfill_started [OF example_world_facts(2)]
       example_identify example_world_facts(2) started_fields backfillPeriod_def empty_upstream_def
       run_history_def processed_of_def status_in_def progress_in_def map_add_def
       progress_full)

lemma example_no_pool_run:
  "status_in (the (backfillJobs (snd (performBackfill upstream ''job-1'' example_options
       (example_world\<lparr>pool := None\<rparr>))) ''job-1'')) = Some failed"
  "progress_in (the (backfillJobs (snd (performBackfill upstream ''job-1'' example_options
       (example_world\<lparr>pool := None\<rparr>))) ''job-1'')) = Some 0"
  by (simp_all add: performBackfill_def try_backfill_def Let_def status_in_def progress_in_def
        map_add_def)

lemma flaky_identify:
  "identifyMissingPeriods example_options (started jobId flaky_world) =
     (Inl econnreset, (started jobId flaky_world)\<lparr>round_trips := 1\<rparr>)"
proof -
  have p: "pool (started jobId flaky_world) = Some mysql_pool"
    by (simp add: started_fields flaky_world_def example_world_def)
  have "run_statement (query (select_stocks (opt_symbols example_options))) (started jobId flaky_world)
          = (Inl econnreset, (started jobId flaky_world)\<lparr>round_trips := 1\<rparr>)"
    by (simp add: run_statement_def Let_def flaky_world_def example_world_def)
  then show ?thesis
    using executeQuery_callback_pool [OF p, of "query (select_stocks (opt_symbols example_options))" 3]
    by (simp add: identifyMissingPeriods_def mysql_pool_def)
qed

subsection \<open>Failures during a run\<close>

lemma process_periods_failure_step:
  assumes "backfillPeriod upstream (stockId g) (symbol g) (startTime g) (endTime g) v
             = (Inl periodError, v1)"
    and "backfillJobs v jobId = Some job" and "errors_in job = Some es"
  shows "process_periods upstream jobId (g # gs) i n v =
           process_periods upstream jobId gs (Suc i) n
             (sleep 1000
                (updateJobStatus jobId
                   [f_errors \<mapsto> JErrors (es @
                      [PeriodError (symbol g) (startTime g) (endTime g)
                         (error_message periodError)]),
                    f_processedPeriods \<mapsto> JNum (int (Suc i)),
                    f_progress \<mapsto> JNum (progress_of (Suc i) n)] v1))"
proof -
  have "same_jobs v v1"
    using backfillPeriod_same_jobs [of v upstream "stockId g" "symbol g" "startTime g" "endTime g"]
      assms(1) by simp
  then have "backfillJobs v1 jobId = Some job"
    using assms(2) by (simp add: same_jobs_def)
  moreover have "job f_errors = Some (JErrors es)"
    using assms(3) by (auto simp: errors_in_def split: option.splits js_value.splits)
  ultimately have "errors_of (backfillJobs v1 jobId) = Inr es"
    by (simp add: errors_of_def)
  then show ?thesis
    by (simp add: assms(1))
qed

text \<open>
  Claim C6. In the loop over the gaps, when repairing a gap throws, an entry with the gap's
  symbol, its span and the error's message is appended to the job's \<^verbatim>\<open>errors\<close>,
  \<^verbatim>\<open>processedPeriods\<close> advances past the gap, and the loop goes on with the next gap.
  A run ends in one of three ways. Without a pool it throws and the job is \<^verbatim>\<open>failed\<close>
  with no gap processed. When gap detection throws, the run throws that error and the job is
  \<^verbatim>\<open>failed\<close> with no gap processed. When gap detection returns, whatever the repairs
  of the gaps do, the loop runs to its end, the run returns the job id, and the job is
  \<^verbatim>\<open>completed\<close> with every gap counted as processed.
\<close>

theorem performBackfill_partial_failure:
  "(backfillPeriod upstream (stockId g) (symbol g) (startTime g) (endTime g) v
        = (Inl periodError, v1) \<longrightarrow>
    backfillJobs v jobId = Some job \<longrightarrow> errors_in job = Some es \<longrightarrow>
      process_periods upstream jobId (g # gs) i n v =
        process_periods upstream jobId gs (Suc i) n
          (sleep 1000
             (updateJobStatus jobId
                [f_errors \<mapsto> JErrors (es @
                   [PeriodError (symbol g) (startTime g) (endTime g)
                      (error_message periodError)]),
                 f_processedPeriods \<mapsto> JNum (int (Suc i)),
                 f_progress \<mapsto> JNum (progress_of (Suc i) n)] v1))) \<and>
   (pool w = None \<longrightarrow>
      (\<exists>w' j. performBackfill upstream uuid options w =
                 (Inl (JsError None ''Database pool not initialized''), w') \<and>
               backfillJobs w' (job_id_of uuid options) = Some j \<and>
               status_in j = Some failed \<and> processed_of j = 0)) \<and>
   (pool w = Some p \<longrightarrow>
    identifyMissingPeriods options (started (job_id_of uuid options) w) = (Inl err, w2) \<longrightarrow>
      (\<exists>w' j. performBackfill upstream uuid options w = (Inl err, w') \<and>
               backfillJobs w' (job_id_of uuid options) = Some j \<and>
               status_in j = Some failed \<and> processed_of j = 0)) \<and>
   (pool w = Some p \<longrightarrow>
    identifyMissingPeriods options (started (job_id_of uuid options) w) = (Inr gaps, w2) \<longrightarrow>
      (\<exists>w' j errs. performBackfill upstream uuid options w =
                 (Inr (job_id_of uuid options), w') \<and>
               backfillJobs w' (job_id_of uuid options) = Some j \<and>
               status_in j = Some completed \<and> processed_of j = int (length gaps) \<and>
               errors_in j = Some errs))"
proof -
  have a: "pool w = None \<longrightarrow>
      (\<exists>w' j. performBackfill upstream uuid options w =
                 (Inl (JsError None ''Database pool not initialized''), w') \<and>
               backfillJobs w' (job_id_of uuid options) = Some j \<and>
               status_in j = Some failed \<and> processed_of j = 0)"
    using performBackfill_no_pool [of w upstream uuid options] by blast
  have b: "pool w = Some p \<longrightarrow>
    identifyMissingPeriods options (started (job_id_of uuid options) w) = (Inl err, w2) \<longrightarrow>
      (\<exists>w' j. performBackfill upstream uuid options w = (Inl err, w') \<and>
               backfillJobs w' (job_id_of uuid options) = Some j \<and>
               status_in j = Some failed \<and> processed_of j = 0)"
    using performBackfill_identify_fails [of w p options uuid err w2 upstream] by blast
  have c: "pool w = Some p \<longrightarrow>
    identifyMissingPeriods options (started (job_id_of uuid options) w) = (Inr gaps, w2) \<longrightarrow>
      (\<exists>w' j errs. performBackfill upstream uuid options w =
                 (Inr (job_id_of uuid options), w') \<and>
               backfillJobs w' (job_id_of uuid options) = Some j \<and>
               status_in j = Some completed \<and> processed_of j = int (length gaps) \<and>
               errors_in j = Some errs)"
    using performBackfill_completes [of w p options uuid gaps w2 upstream] by blast
  show ?thesis
    using process_periods_failure_step [of upstream g v periodError v1 jobId job es gs i n] a b c
    by blast
qed

theorem performBackfill_partial_failure_witness:
  "backfillPeriod failing_upstream 1 ''AAPL'' 360000 1740000 (started ''job-1'' example_world)
     = (Inl (JsError None ''timeout of 15000ms exceeded''), started ''job-1'' example_world) \<and>
   errors_in (the (backfillJobs (started ''job-1'' example_world) ''job-1'')) = Some [] \<and>
   process_periods failing_upstream ''job-1''
       [\<lparr>stockId = 1, symbol = ''AAPL'', startTime = 360000, endTime = 1740000\<rparr>] 0 1
       (started ''job-1'' example_world) =
     (Inr (),
      sleep 1000
        (updateJobStatus ''job-1''
           [f_errors \<mapsto> JErrors [PeriodError ''AAPL'' 360000 1740000 ''timeout of 15000ms exceeded''],
            f_processedPeriods \<mapsto> JNum 1, f_progress \<mapsto> JNum 100]
           (started ''job-1'' example_world))) \<and>
   pool example_world = Some mysql_pool \<and>
   fst (identifyMissingPeriods example_options (started ''job-1'' example_world)) =
     Inr [\<lparr>stockId = 1, symbol = ''AAPL'', startTime = 360000, endTime = 1740000\<rparr>] \<and>
   fst (performBackfill failing_upstream ''job-1'' example_options example_world) = Inr ''job-1'' \<and>
   status_in (the (backfillJobs
       (snd (performBackfill failing_upstream ''job-1'' example_options example_world)) ''job-1''))
     = Some completed \<and>
   processed_of (the (backfillJobs
       (snd (performBackfill failing_upstream ''job-1'' example_options example_world)) ''job-1''))
     = 1 \<and>
   errors_in (the (backfillJobs
       (snd (performBackfill failing_upstream ''job-1'' example_options example_world)) ''job-1''))
     = Some [PeriodError ''AAPL'' 360000 1740000 ''timeout of 15000ms exceeded''] \<and>
   pool flaky_world = Some mysql_pool \<and>
   fst (identifyMissingPeriods example_options (started ''job-1'' flaky_world)) = Inl econnreset \<and>
   fst (performBackfill failing_upstream ''job-1'' example_options flaky_world) = Inl econnreset \<and>
   status_in (the (backfillJobs
       (snd (performBackfill failing_upstream ''job-1'' example_options flaky_world)) ''job-1''))
     = Some failed \<and>
   pool (example_world\<lparr>pool := None\<rparr>) = None \<and>
   status_in (the (backfillJobs
       (snd (performBackfill failing_upstream ''job-1'' example_options
          (example_world\<lparr>pool := None\<rparr>))) ''job-1''))
     = Some failed"
proof -
  let ?g = "\<lparr>stockId = 1, symbol = ''AAPL'', startTime = 360000, endTime = 1740000\<rparr>"
  let ?v = "started ''job-1'' example_world"
  let ?e = "JsError None ''timeout of 15000ms exceeded''"
  let ?job = "initial_job ''job-1'' (clock example_world) ++ [f_status \<mapsto> JStatus identifying_gaps]"
  have pv: "pool ?v = Some mysql_pool"
    by (simp add: started_fields example_world_facts)
  have bp: "backfillPeriod failing_upstream (stockId ?g) (symbol ?g) (startTime ?g) (endTime ?g) ?v
              = (Inl ?e, ?v)"
    by (simp add: backfillPeriod_def pv failing_upstream_def)
  have bj: "backfillJobs ?v ''job-1'' = Some ?job"
    by (simp add: started_fields)
  have ej: "errors_in ?job = Some []"
    by (simp add: errors_in_def map_add_def)
  have step: "process_periods failing_upstream ''job-1'' [?g] 0 1 ?v =
     (Inr (),
      sleep 1000
        (updateJobStatus ''job-1''
           [f_errors \<mapsto> JErrors [PeriodError ''AAPL'' 360000 1740000 ''timeout of 15000ms exceeded''],
            f_processedPeriods \<mapsto> JNum 1, f_progress \<mapsto> JNum 100] ?v))"
    using performBackfill_partial_failure [where upstream = failing_upstream and g = ?g
        and v = ?v and periodError = ?e and ?v1.0 = ?v and jobId = "''job-1''" and job = ?job
        and es = "[]" and gs = "[]" and i = 0 and n = 1, THEN conjunct1] bp bj ej
    by (simp add: progress_full)
  have p1: "pool example_world = Some mysql_pool"
    by (simp add: example_world_facts)
  note id1 = example_identify [of "''job-1''"]
  obtain w' j errs where r1:
    "performBackfill failing_upstream ''job-1'' example_options example_world = (Inr ''job-1'', w')"
    "backfillJobs w' ''job-1'' = Some j" "status_in j = Some completed" "processed_of j = 1"
    using performBackfill_partial_failure [where upstream = failing_upstream and w = example_world
        and p = mysql_pool and options = example_options and uuid = "''job-1''"
        and gaps = "[?g]" and ?w2.0 = "?v\<lparr>round_trips := 2\<rparr>",
        THEN conjunct2, THEN conjunct2, THEN conjunct2] p1 id1
    by auto
  have p2: "pool flaky_world = Some mysql_pool"
    by (simp add: flaky_world_def example_world_def)
  note id2 = flaky_identify [of "''job-1''"]
  obtain w'' j' where r2:
    "performBackfill failing_upstream ''job-1'' example_options flaky_world = (Inl econnreset, w'')"
    "backfillJobs w'' ''job-1'' = Some j'" "status_in j' = Some failed"
    using performBackfill_partial_failure [where upstream = failing_upstream and w = flaky_world
        and p = mysql_pool and options = example_options and uuid = "''job-1''"
        and err = econnreset and ?w2.0 = "(started ''job-1'' flaky_world)\<lparr>round_trips := 1\<rparr>",
        THEN conjunct2, THEN conjunct2, THEN conjunct1]
      p2 id2
    by auto
  have p3: "pool (example_world\<lparr>pool := None\<rparr>) = None"
    by simp
  obtain w''' j'' where r3:
    "performBackfill failing_upstream ''job-1'' example_options (example_world\<lparr>pool := None\<rparr>)
       = (Inl (JsError None ''Database pool not initialized''), w''')"
    "backfillJobs w''' ''job-1'' = Some j''" "status_in j'' = Some failed"
    using performBackfill_partial_failure [where upstream = failing_upstream
        and w = "example_world\<lparr>pool := None\<rparr>"
        and options = example_options and uuid = "''job-1''",
        THEN conjunct2, THEN conjunct1] p3
    by auto
  show ?thesis
    using bp bj ej step p1 id1 r1 example_run_failing p2 id2 r2 p3 r3
    by simp
qed

subsection \<open>Progress of a job\<close>

text \<open>
  Claim C8, as amended. Over the values that a run of \<^verbatim>\<open>performBackfill\<close> stores for
  its job, in order: \<^verbatim>\<open>processedPeriods\<close> never decreases; it is at most
  \<^verbatim>\<open>totalPeriods\<close> in every value that has \<^verbatim>\<open>totalPeriods\<close>; every value marked
  \<^verbatim>\<open>completed\<close> has \<^verbatim>\<open>progress\<close> 100; and the last value, which is the one left
  in the job map, is terminal (\<^verbatim>\<open>completed\<close> or \<^verbatim>\<open>failed\<close>).
\<close>

theorem performBackfill_progress:
  "run_history w (snd (performBackfill upstream uuid options w)) \<noteq> [] \<and>
   sorted (map processed_of (run_history w (snd (performBackfill upstream uuid options w)))) \<and>
   (\<forall>j \<in> set (run_history w (snd (performBackfill upstream uuid options w))).
      \<forall>t. total_of j = Some t \<longrightarrow> processed_of j \<le> t) \<and>
   (\<forall>j \<in> set (run_history w (snd (performBackfill upstream uuid options w))).
      status_in j = Some completed \<longrightarrow> progress_in j = Some 100) \<and>
   backfillJobs (snd (performBackfill upstream uuid options w)) (job_id_of uuid options) =
     Some (last (run_history w (snd (performBackfill upstream uuid options w)))) \<and>
   terminal (last (run_history w (snd (performBackfill upstream uuid options w))))"
proof -
  let ?w' = "snd (performBackfill upstream uuid options w)"
  have "\<exists>j. backfillJobs ?w' (job_id_of uuid options) = Some j \<and>
          run_history w ?w' \<noteq> [] \<and> last (run_history w ?w') = j \<and>
          terminal j \<and> history_ok (run_history w ?w')"
  proof (cases "pool w")
    case None
    from performBackfill_no_pool [OF None, of upstream uuid options] show ?thesis
      by (auto simp: terminal_def)
  next
    case (Some p)
    obtain r w2 where i: "identifyMissingPeriods options (started (job_id_of uuid options) w) = (r, w2)"
      by (cases "identifyMissingPeriods options (started (job_id_of uuid options) w)")
    show ?thesis
    proof (cases r)
      case (Inl err)
      from performBackfill_identify_fails [OF Some i [unfolded Inl], of upstream] show ?thesis
        by (auto simp: terminal_def)
    next
      case (Inr gaps)
      from performBackfill_completes [OF Some i [unfolded Inr], of upstream] show ?thesis
        by (auto simp: terminal_def)
    qed
  qed
  then show ?thesis
    unfolding history_ok_def by auto
qed

theorem performBackfill_progress_witness:
  "run_history example_world
     (snd (performBackfill empty_upstream ''job-1'' example_options example_world)) \<noteq> [] \<and>
   sorted (map processed_of (run_history example_world
     (snd (performBackfill empty_upstream ''job-1'' example_options example_world)))) \<and>
   map processed_of (run_history example_world
     (snd (performBackfill empty_upstream ''job-1'' example_options example_world))) = [0, 0, 0, 1, 1] \<and>
   terminal (last (run_history example_world
     (snd (performBackfill empty_upstream ''job-1'' example_options example_world)))) \<and>
   getBackfillStatus ''job-1''
     (snd (performBackfill empty_upstream ''job-1'' example_options example_world)) =
     Snapshot (last (run_history example_world
       (snd (performBackfill empty_upstream ''job-1'' example_options example_world))))"
  using performBackfill_progress [of example_world empty_upstream "''job-1''" example_options]
  by (simp add: example_run_empty getBackfillStatus_def)

text \<open>
  The claim as first stated also has progress 100 for every terminal job and for terminal
  jobs only. A run without a pool leaves a \<^verbatim>\<open>failed\<close> job with progress 0; and in a run
  over one gap the value stored after that gap has progress 100 while its status is still
  \<^verbatim>\<open>processing\<close>.
\<close>

theorem performBackfill_progress_counterexample:
  "status_in (the (backfillJobs (snd (performBackfill empty_upstream ''job-1'' example_options
       (example_world\<lparr>pool := None\<rparr>))) ''job-1'')) = Some failed \<and>
   progress_in (the (backfillJobs (snd (performBackfill empty_upstream ''job-1'' example_options
       (example_world\<lparr>pool := None\<rparr>))) ''job-1'')) = Some 0 \<and>
   map status_in (run_history example_world
     (snd (performBackfill empty_upstream ''job-1'' example_options example_world))) ! 3
     = Some processing \<and>
   map progress_in (run_history example_world
     (snd (performBackfill empty_upstream ''job-1'' example_options example_world))) ! 3
     = Some 100"
  by (simp add: example_no_pool_run example_run_empty)

subsection \<open>Retention cleanup\<close>

text \<open>
  One batch of a pass in which no statement fails: the batch is the lowest ids, in ascending
  order, of the expired rows above \<^verbatim>\<open>lastId\<close>; deleting it leaves every other row, and
  the expired rows that are left are above the batch's last id.
\<close>

lemma old_ids_expired:
  "old_ids cutoffTime lastId rows =
     map row_id (filter (\<lambda>r. expired cutoffTime r \<and> lastId < row_id r) rows)"
  by (simp add: old_ids_def expired_def conj_ac)

lemma batch_step:
  fixes rows :: "'a history_row_scheme list"
  assumes d: "distinct (map row_id rows)"
    and ids: "ids = take n (sort (old_ids c l rows))"
    and ne: "ids \<noteq> []"
    and above: "\<forall>r \<in> set rows. expired c r \<longrightarrow> l < row_id r"
  defines "rows' \<equiv> filter (\<lambda>r. row_id r \<notin> set ids) rows"
  shows "distinct (map row_id rows')"
    and "\<forall>r \<in> set rows'. expired c r \<longrightarrow> last ids < row_id r"
    and "filter (\<lambda>r. \<not> expired c r) rows' = filter (\<lambda>r. \<not> expired c r) rows"
    and "row_id ` {r \<in> set rows. expired c r} = set ids \<union> row_id ` {r \<in> set rows'. expired c r}"
    and "sorted_wrt (<) ids"
    and "\<forall>x \<in> set ids. l < x \<and> x \<le> last ids"
    and "length ids \<le> n"
proof -
  let ?S = "sort (old_ids c l rows)"
  have dS: "distinct ?S"
    using d by (simp add: old_ids_def distinct_map_filter)
  have sS: "sorted_wrt (<) ?S"
    using dS by (simp add: strict_sorted_iff)
  have setS: "set ?S = row_id ` {r \<in> set rows. expired c r}"
    using above by (auto simp: old_ids_expired)
  have split: "?S = ids @ drop n ?S"
    by (simp add: ids)
  show s_ids: "sorted_wrt (<) ids"
    using sS by (simp add: ids sorted_wrt_take)
  have lt: "\<forall>a \<in> set ids. \<forall>b \<in> set (drop n ?S). a < b"
    using sS by (subst (asm) split) (simp add: sorted_wrt_append)
  have last_in: "last ids \<in> set ids" using ne by simp
  have le_last: "\<forall>x \<in> set ids. x \<le> last ids"
  proof
    fix x assume "x \<in> set ids"
    then obtain i where i: "i < length ids" "ids ! i = x" by (auto simp: in_set_conv_nth)
    have "sorted ids" using s_ids by (simp add: strict_sorted_iff)
    then have "ids ! i \<le> ids ! (length ids - 1)"
      using i(1) by (intro sorted_nth_mono) auto
    then show "x \<le> last ids" using i(2) ne by (simp add: last_conv_nth)
  qed
  have sub: "set ids \<subseteq> set ?S" by (metis split set_append Un_upper1)
  show "\<forall>x \<in> set ids. l < x \<and> x \<le> last ids"
    using le_last sub by (auto simp: old_ids_expired)
  show "length ids \<le> n" by (simp add: ids)
  show "distinct (map row_id rows')"
    using d by (simp add: rows'_def distinct_map_filter)
  show "\<forall>r \<in> set rows'. expired c r \<longrightarrow> last ids < row_id r"
  proof (intro ballI impI)
    fix r assume r: "r \<in> set rows'" "expired c r"
    then have "row_id r \<in> set ?S" "row_id r \<notin> set ids"
      using setS by (auto simp: rows'_def)
    then have "row_id r \<in> set (drop n ?S)"
      by (metis split set_append Un_iff)
    then show "last ids < row_id r" using lt last_in by blast
  qed
  have inj: "inj_on row_id (set rows)"
    using d by (simp add: distinct_map)
  have exp_ids: "expired c r" if "r \<in> set rows" "row_id r \<in> set ids" for r
  proof -
    from that(2) sub setS obtain r' where r': "r' \<in> set rows" "expired c r'" "row_id r' = row_id r"
      by auto
    then have "r' = r" using inj that(1) by (auto dest: inj_onD)
    then show ?thesis using r'(2) by simp
  qed
  show "filter (\<lambda>r. \<not> expired c r) rows' = filter (\<lambda>r. \<not> expired c r) rows"
    unfolding rows'_def filter_filter
    by (rule filter_cong) (use exp_ids in auto)
  show "row_id ` {r \<in> set rows. expired c r} = set ids \<union> row_id ` {r \<in> set rows'. expired c r}"
    using sub setS by (auto simp: rows'_def)
qed

lemma empty_batch:
  assumes "take n (sort (old_ids c l rows)) = []" and "0 < n"
    and "\<forall>r \<in> set rows. expired c r \<longrightarrow> l < row_id r"
  shows "filter (\<lambda>r. \<not> expired c r) rows = rows" and "{r \<in> set rows. expired c r} = {}"
proof -
  have "sort (old_ids c l rows) = []"
    using assms(1,2) by (cases "sort (old_ids c l rows)") auto
  then have "old_ids c l rows = []"
    by (metis set_sort set_empty)
  then have "\<forall>r \<in> set rows. \<not> expired c r"
    using assms(3) by (auto simp: old_ids_expired filter_empty_conv)
  then show "filter (\<lambda>r. \<not> expired c r) rows = rows" and "{r \<in> set rows. expired c r} = {}"
    by (auto simp: filter_id_conv)
qed

lemma healthy_delete_ids [simp]: "healthy (snd (delete_ids tableName ids db)) = healthy db"
  by (simp add: delete_ids_def healthy_def split: table_name.splits)

lemma cleanup_loop_healthy:
  fixes tbl :: "'a database_scheme \<Rightarrow> 'b history_row_scheme list"
  assumes sel: "\<And>d l. select_old_ids tableName c l n d = take n (sort (old_ids c l (tbl d)))"
    and del: "\<And>d ids. tbl (snd (delete_ids tableName ids d)) = filter (\<lambda>r. row_id r \<notin> set ids) (tbl d)"
    and rt: "\<And>d k. tbl (d\<lparr>round_trips := k\<rparr>) = tbl d"
    and odel: "\<And>d ids. oth (snd (delete_ids tableName ids d)) = oth d"
    and ort: "\<And>d k. oth (d\<lparr>round_trips := k\<rparr>) = oth d"
    and h: "healthy db" and d: "distinct (map row_id (tbl db))" and n: "0 < n"
    and above: "\<forall>r \<in> set (tbl db). expired c r \<longrightarrow> lastId < row_id r"
  shows "\<exists>bs db'. cleanup_loop tableName c n lastId attempt batches db = (Inr (batches @ bs), db') \<and>
           tbl db' = filter (\<lambda>r. \<not> expired c r) (tbl db) \<and> healthy db' \<and>
           oth db' = oth db \<and>
           (\<forall>b \<in> set bs. b \<noteq> [] \<and> length b \<le> n) \<and>
           sorted_wrt (<) (concat bs) \<and> (\<forall>x \<in> set (concat bs). lastId < x) \<and>
           set (concat bs) = row_id ` {r \<in> set (tbl db). expired c r}"
  using h d above
proof (induction "length (old_ids c lastId (tbl db))" arbitrary: lastId attempt batches db
        rule: less_induct)
  case less
  let ?db1 = "db\<lparr>round_trips := Suc (round_trips db)\<rparr>"
  define ids where "ids = take n (sort (old_ids c lastId (tbl db)))"
  have q: "run_statement (query (select_old_ids tableName c lastId n)) db = (Inr ids, ?db1)"
    using less.prems(1) by (simp add: run_statement_healthy query_def sel rt ids_def)
  show ?case
  proof (cases "ids = []")
    case True
    from empty_batch [OF True [unfolded ids_def] n less.prems(3)]
    have e: "filter (\<lambda>r. \<not> expired c r) (tbl db) = tbl db" "{r \<in> set (tbl db). expired c r} = {}"
      by auto
    have run: "cleanup_loop tableName c n lastId attempt batches db = (Inr (batches @ []), ?db1)"
      using True by (simp add: cleanup_loop.simps [of tableName c n lastId attempt batches db] q)
    have "tbl ?db1 = filter (\<lambda>r. \<not> expired c r) (tbl db)" "healthy ?db1"
      using e(1) less.prems(1) by (simp_all add: rt)
    then show ?thesis
      using run e(2) by (intro exI [of _ "[]"] exI [of _ ?db1]) (simp add: ort)
  next
    case False
    let ?db2 = "snd (delete_ids tableName ids (?db1\<lparr>round_trips := Suc (round_trips ?db1)\<rparr>))"
    have h1: "healthy ?db1" using less.prems(1) by simp
    have dl: "run_statement (delete_ids tableName ids) ?db1 = (Inr (), ?db2)"
      using h1 by (simp add: run_statement_healthy delete_ids_def)
    have t2: "tbl ?db2 = filter (\<lambda>r. row_id r \<notin> set ids) (tbl db)"
      by (simp add: del rt)
    have h2: "healthy ?db2" using less.prems(1) by simp
    note st = batch_step [OF less.prems(2) ids_def False less.prems(3)]
    have "last ids \<in> set (old_ids c lastId (tbl db))"
      using False unfolding ids_def by (metis in_set_takeD last_in_set set_sort)
    then have m: "length (old_ids c (last ids) (tbl ?db2)) < length (old_ids c lastId (tbl db))"
      unfolding t2 by (rule old_ids_less)
    have d2: "distinct (map row_id (tbl ?db2))"
      and a2: "\<forall>r \<in> set (tbl ?db2). expired c r \<longrightarrow> last ids < row_id r"
      using st(1,2) unfolding t2 by simp_all
    from less.hyps [OF m h2 d2 a2, of 0 "batches @ [ids]"]
    obtain bs db' where r:
      "cleanup_loop tableName c n (last ids) 0 (batches @ [ids]) ?db2 =
         (Inr ((batches @ [ids]) @ bs), db')"
      "tbl db' = filter (\<lambda>r. \<not> expired c r) (tbl ?db2)" "healthy db'"
      "oth db' = oth ?db2"
      "\<forall>b \<in> set bs. b \<noteq> [] \<and> length b \<le> n"
      "sorted_wrt (<) (concat bs)" "\<forall>x \<in> set (concat bs). last ids < x"
      "set (concat bs) = row_id ` {r \<in> set (tbl ?db2). expired c r}"
      by blast
    have run: "cleanup_loop tableName c n lastId attempt batches db = (Inr (batches @ (ids # bs)), db')"
      using False r(1)
      by (simp add: cleanup_loop.simps [of tableName c n lastId attempt batches db] q dl)
    have a: "tbl db' = filter (\<lambda>r. \<not> expired c r) (tbl db)"
      using r(2) st(3) unfolding t2 by simp
    have o: "oth db' = oth db"
      using r(4) by (simp add: odel ort)
    have b: "\<forall>b \<in> set (ids # bs). b \<noteq> [] \<and> length b \<le> n"
      using r(5) False st(7) by simp
    have c: "sorted_wrt (<) (concat (ids # bs))"
      using st(5,6) r(6,7) by (fastforce simp: sorted_wrt_append)
    have li: "lastId < last ids"
      using st(6) False by simp
    have e: "\<forall>x \<in> set (concat (ids # bs)). lastId < x"
    proof
      fix x assume "x \<in> set (concat (ids # bs))"
      then consider "x \<in> set ids" | "x \<in> set (concat bs)" by auto
      then show "lastId < x"
      proof cases
        case 1
        then show ?thesis using st(6) by blast
      next
        case 2
        then have "last ids < x" using r(7) by blast
        then show ?thesis using li by simp
      qed
    qed
    have f: "set (concat (ids # bs)) = row_id ` {r \<in> set (tbl db). expired c r}"
      using st(4) r(8) unfolding t2 by simp
    show ?thesis
      using run a r(3) o b c e f by blast
  qed
qed

lemma cleanupWebsocketData_without_faults:
  assumes "healthy db"
    and "distinct (map row_id (price_history db))"
    and "\<forall>r \<in> set (price_history db). 0 < row_id r"
    and "distinct (map row_id (aggregate_history db))"
    and "\<forall>r \<in> set (aggregate_history db). 0 < row_id r"
  shows "\<exists>priceBatches aggregateBatches db'.
           cleanupWebsocketData tz False now db = (Some (Inr (priceBatches, aggregateBatches)), db') \<and>
           price_history db' = filter (\<lambda>r. \<not> expired (minutes_before tz 15 now) r) (price_history db) \<and>
           aggregate_history db' =
             filter (\<lambda>r. \<not> expired (minutes_before tz 15 now) r) (aggregate_history db) \<and>
           (\<forall>b \<in> set priceBatches \<union> set aggregateBatches. b \<noteq> [] \<and> length b \<le> 250) \<and>
           sorted_wrt (<) (concat priceBatches) \<and> sorted_wrt (<) (concat aggregateBatches) \<and>
           set (concat priceBatches) =
             row_id ` {r \<in> set (price_history db). expired (minutes_before tz 15 now) r} \<and>
           set (concat aggregateBatches) =
             row_id ` {r \<in> set (aggregate_history db). expired (minutes_before tz 15 now) r}"
proof -
  let ?c = "minutes_before tz 15 now"
  have p: "\<forall>r \<in> set (price_history db). expired ?c r \<longrightarrow> 0 < row_id r"
    using assms(3) by blast
  obtain pb db1 where 1:
    "cleanup_loop price_history_table ?c 250 0 0 [] db = (Inr ([] @ pb), db1)"
    "price_history db1 = filter (\<lambda>r. \<not> expired ?c r) (price_history db)" "healthy db1"
    "aggregate_history db1 = aggregate_history db"
    "\<forall>b \<in> set pb. b \<noteq> [] \<and> length b \<le> 250"
    "sorted_wrt (<) (concat pb)"
    "set (concat pb) = row_id ` {r \<in> set (price_history db). expired ?c r}"
    using cleanup_loop_healthy [where tbl = price_history and oth = aggregate_history
        and tableName = price_history_table and c = ?c and n = 250 and db = db and lastId = 0
        and attempt = 0 and batches = "[]", OF _ _ _ _ _ assms(1,2) _ p]
    by (auto simp: select_old_ids_def delete_ids_def)
  have a: "\<forall>r \<in> set (aggregate_history db1). expired ?c r \<longrightarrow> 0 < row_id r"
    using assms(5) 1(4) by simp
  have d: "distinct (map row_id (aggregate_history db1))"
    using assms(4) 1(4) by simp
  obtain ab db2 where 2:
    "cleanup_loop aggregate_history_table ?c 250 0 0 [] db1 = (Inr ([] @ ab), db2)"
    "aggregate_history db2 = filter (\<lambda>r. \<not> expired ?c r) (aggregate_history db1)"
    "price_history db2 = price_history db1"
    "\<forall>b \<in> set ab. b \<noteq> [] \<and> length b \<le> 250"
    "sorted_wrt (<) (concat ab)"
    "set (concat ab) = row_id ` {r \<in> set (aggregate_history db1). expired ?c r}"
    using cleanup_loop_healthy [where tbl = aggregate_history and oth = price_history
        and tableName = aggregate_history_table and c = ?c and n = 250 and db = db1 and lastId = 0
        and attempt = 0 and batches = "[]", OF _ _ _ _ _ 1(3) d _ a]
    by (auto simp: select_old_ids_def delete_ids_def)
  have run: "cleanupWebsocketData tz False now db = (Some (Inr (pb, ab)), db2)"
    using 1(1) 2(1) by (simp add: cleanupWebsocketData_def cleanupTableInBatches_def Let_def)
  show ?thesis
    using run 1 2 by (intro exI [of _ pb] exI [of _ ab] exI [of _ db2]) auto
qed

text \<open>
  When a \<^verbatim>\<open>DELETE\<close> fails and the batch is tried again, the next \<^verbatim>\<open>SELECT\<close> asks
  for ids above \<^verbatim>\<open>lastId\<close>, which already is the last id of the batch that was not
  deleted.
\<close>

lemma locked_world_cleanup:
  "cleanupWebsocketData utc_zone False 3600000 locked_world =
     (Some (Inr ([], [])), locked_world\<lparr>round_trips := 4\<rparr>)"
  by (simp add: cleanupWebsocketData_def cleanupTableInBatches_def Let_def cleanup_loop.simps
        run_statement_def query_def select_old_ids_def old_ids_def delete_ids_def
        locked_world_def example_world_def stale_row_def maxAttempts_def
        minutes_before_def utc_zone_def)

text \<open>
  Claim C7. The claim is that a cleanup pass that completes without error deletes exactly the
  streaming rows older than the cutoff, so that none is left after the pass. The code, on a
  price table holding one streaming row older than the cutoff, when the first \<^verbatim>\<open>DELETE\<close>
  of the pass fails once: the pass tries again, finds no id above the one it failed to delete,
  returns normally with no batch deleted (where the code logs that the cleanup completed
  successfully), and the row is still in the table.
\<close>

theorem cleanup_skips_batch_after_failed_delete:
  "expired (3600000 - 900000) stale_row \<and>
   price_history locked_world = [stale_row] \<and>
   faults locked_world 0 = None \<and> faults locked_world 1 = Some lock_timeout \<and>
   fst (cleanupWebsocketData utc_zone False 3600000 locked_world) = Some (Inr ([], [])) \<and>
   price_history (snd (cleanupWebsocketData utc_zone False 3600000 locked_world)) = [stale_row]"
  by (simp add: locked_world_cleanup)
     (simp add: locked_world_def example_world_def expired_def stale_row_def)

subsection \<open>What a write leaves in place\<close>

text \<open>
  Every statement that writes to a history table, and so every write of the three writers,
  takes the store to one that \<open>grows\<close> from it, whatever round trips fail.
\<close>

lemma grows_refl [simp]: "grows db db"
  by (simp add: grows_def)

lemma grows_trans:
  assumes "grows a b" and "grows b c"
  shows "grows a c"
proof -
  have u: "unique_timestamps b = unique_timestamps a" "unique_timestamps c = unique_timestamps b"
    using assms by (simp_all add: grows_def)
  have p: "prefix (map row_identity (price_history a)) (map row_identity (price_history c))"
    using assms prefix_order.trans unfolding grows_def by blast
  have q: "prefix (map row_identity (aggregate_history a)) (map row_identity (aggregate_history c))"
    using assms prefix_order.trans unfolding grows_def by blast
  have k: "unique_timestamps a \<longrightarrow> keys_unique (price_history a) \<longrightarrow> keys_unique (price_history c)"
    using assms u unfolding grows_def by blast
  have l: "unique_timestamps a \<longrightarrow> keys_unique (aggregate_history a)
             \<longrightarrow> keys_unique (aggregate_history c)"
    using assms u unfolding grows_def by blast
  show ?thesis
    unfolding grows_def using u p q k l by simp
qed

lemma grows_round_trips [simp]: "grows db (db'\<lparr>round_trips := n\<rparr>) = grows db db'"
  by (simp add: grows_def)

lemma grows_sleep [simp]: "grows w (sleep ms w') = grows w w'"
  by (simp add: grows_def sleep_def)

lemma identity_update:
  "map row_identity (map (\<lambda>r. if same_key sid ts r then f r else r) rows) = map row_identity rows"
  if "\<And>r. row_identity (f r) = row_identity r"
  using that by (induction rows) auto

lemma key_of_identity: "row_key r = (fst (snd (row_identity r)), fst (snd (snd (row_identity r))))"
  by (simp add: row_key_def row_identity_def)

lemma keys_from_identities:
  "map row_key xs = map (\<lambda>i. (fst (snd i), fst (snd (snd i)))) (map row_identity xs)"
  by (induction xs) (simp_all add: key_of_identity)

lemma keys_unique_identity:
  assumes "map row_identity rows' = map row_identity rows"
  shows "keys_unique rows' = keys_unique rows"
proof -
  have "map row_key rows' = map (\<lambda>i. (fst (snd i), fst (snd (snd i)))) (map row_identity rows')"
    by (rule keys_from_identities)
  also have "\<dots> = map (\<lambda>i. (fst (snd i), fst (snd (snd i)))) (map row_identity rows)"
    using assms by (rule arg_cong)
  also have "\<dots> = map row_key rows"
    by (rule keys_from_identities [symmetric])
  finally show ?thesis
    unfolding keys_unique_def by (rule arg_cong)
qed

lemma keys_unique_snoc:
  "keys_unique rows \<Longrightarrow> \<not> (\<exists>r \<in> set rows. same_key (stock_id new) (timestamp new) r)
     \<Longrightarrow> keys_unique (rows @ [new])"
  by (auto simp: keys_unique_def same_key_def row_key_def)

lemma grows_append_price:
  assumes "stock_id new = sid" and "timestamp new = ts"
    and "\<not> (unique_timestamps db \<and> (\<exists>r \<in> set (price_history db). same_key sid ts r))"
  shows "grows db (db\<lparr>price_history := price_history db @ [new], price_history_next_id := n\<rparr>)"
proof -
  have "unique_timestamps db \<longrightarrow> keys_unique (price_history db)
          \<longrightarrow> keys_unique (price_history db @ [new])"
    using assms keys_unique_snoc [of "price_history db" new] by blast
  then show ?thesis by (simp add: grows_def)
qed

lemma grows_append_aggregate:
  assumes "stock_id new = sid" and "timestamp new = ts"
    and "\<not> (unique_timestamps db \<and> (\<exists>r \<in> set (aggregate_history db). same_key sid ts r))"
  shows "grows db (db\<lparr>aggregate_history := aggregate_history db @ [new],
                      aggregate_history_next_id := n\<rparr>)"
proof -
  have "unique_timestamps db \<longrightarrow> keys_unique (aggregate_history db)
          \<longrightarrow> keys_unique (aggregate_history db @ [new])"
    using assms keys_unique_snoc [of "aggregate_history db" new] by blast
  then show ?thesis by (simp add: grows_def)
qed

lemma grows_insert_price: "grows db (snd (insert_price sid p v ts src db))"
proof (cases "unique_timestamps db \<and> (\<exists>r \<in> set (price_history db). same_key sid ts r)")
  case True
  then show ?thesis by (simp add: insert_price_def)
next
  case False
  show ?thesis
    unfolding insert_price_def if_not_P [OF False] snd_conv
    by (rule grows_append_price [where sid = sid and ts = ts, OF _ _ False]) simp_all
qed

lemma grows_insert_aggregate: "grows db (snd (insert_aggregate sid opn hi lo cl v vw ts src db))"
proof (cases "unique_timestamps db \<and> (\<exists>r \<in> set (aggregate_history db). same_key sid ts r)")
  case True
  then show ?thesis by (simp add: insert_aggregate_def)
next
  case False
  show ?thesis
    unfolding insert_aggregate_def if_not_P [OF False] snd_conv
    by (rule grows_append_aggregate [where sid = sid and ts = ts, OF _ _ False]) simp_all
qed

lemma grows_upsert_price: "grows db (snd (upsert_price sid p v ts db))"
proof (cases "unique_timestamps db \<and> (\<exists>r \<in> set (price_history db). same_key sid ts r)")
  case True
  define rows' where
    "rows' = map (\<lambda>r. if same_key sid ts r then r\<lparr>price := p, volume := v\<rparr> else r) (price_history db)"
  have i: "map row_identity rows' = map row_identity (price_history db)"
    unfolding rows'_def by (rule identity_update) (simp add: row_identity_def)
  have u: "upsert_price sid p v ts db = (Inr (), db\<lparr>price_history := rows'\<rparr>)"
    using True by (simp add: upsert_price_def rows'_def)
  show ?thesis
    unfolding u using i keys_unique_identity [OF i] by (simp add: grows_def)
next
  case False
  show ?thesis
    unfolding upsert_price_def if_not_P [OF False] snd_conv
    by (rule grows_append_price [where sid = sid and ts = ts, OF _ _ False]) simp_all
qed

lemma grows_upsert_aggregate: "grows db (snd (upsert_aggregate sid opn hi lo cl v ts db))"
proof (cases "unique_timestamps db \<and> (\<exists>r \<in> set (aggregate_history db). same_key sid ts r)")
  case True
  define rows' where
    "rows' = map (\<lambda>r. if same_key sid ts r
                            then r\<lparr>open_price := opn, high_price := hi, low_price := lo,
                                   close_price := cl, volume := v\<rparr>
                            else r) (aggregate_history db)"
  have i: "map row_identity rows' = map row_identity (aggregate_history db)"
    unfolding rows'_def by (rule identity_update) (simp add: row_identity_def)
  have u: "upsert_aggregate sid opn hi lo cl v ts db = (Inr (), db\<lparr>aggregate_history := rows'\<rparr>)"
    using True by (simp add: upsert_aggregate_def rows'_def)
  show ?thesis
    unfolding u using i keys_unique_identity [OF i] by (simp add: grows_def)
next
  case False
  show ?thesis
    unfolding upsert_aggregate_def if_not_P [OF False] snd_conv
    by (rule grows_append_aggregate [where sid = sid and ts = ts, OF _ _ False]) simp_all
qed

lemma grows_insert_stock: "grows db (snd (insert_stock symb db))"
  by (simp add: insert_stock_def grows_def)

lemma grows_query: "grows db (snd (query sel db))"
  by (simp add: query_def)

lemma grows_run_statement:
  assumes "\<And>x. grows x (snd (statement x))"
  shows "grows db (snd (run_statement statement db))"
proof -
  have "grows db (snd (statement (db\<lparr>round_trips := Suc (round_trips db)\<rparr>)))"
    using assms [of "db\<lparr>round_trips := Suc (round_trips db)\<rparr>"]
    by (simp add: grows_def)
  then show ?thesis
    by (simp add: run_statement_def Let_def split: option.splits)
qed

lemma grows_run:
  "run_statement statement db = (r, db') \<Longrightarrow> (\<And>x. grows x (snd (statement x))) \<Longrightarrow> grows db db'"
  using grows_run_statement [of statement db] by simp

lemma grows_processSymbol: "grows db (processSymbol symb fetched now db)"
proof (cases fetched)
  case (Inl err)
  then show ?thesis by (simp add: processSymbol_def)
next
  case (Inr stockData)
  obtain r1 db1 where 1: "run_statement (query (select_stock_ids symb)) db = (r1, db1)"
    by (cases "run_statement (query (select_stock_ids symb)) db")
  have g1: "grows db db1" using grows_run [OF 1] grows_query by blast
  show ?thesis
  proof (cases r1)
    case (Inl err)
    then show ?thesis using g1 by (simp add: processSymbol_def Inr collector_executeQuery_def 1)
  next
    case rows: (Inr rows)
    show ?thesis
    proof (cases rows)
      case Nil
      have "grows db1 (snd (run_statement (insert_stock symb) db1))"
        by (rule grows_run_statement) (rule grows_insert_stock)
      then show ?thesis
        using grows_trans [OF g1]
        by (simp add: processSymbol_def Inr collector_executeQuery_def 1 rows Nil)
    next
      case (Cons existingStock others)
      obtain r2 db2 where 2: "run_statement (query (\<lambda>_. ())) db1 = (r2, db2)"
        by (cases "run_statement (query (\<lambda>_. ())) db1")
      have g2: "grows db db2"
        using grows_trans [OF g1 grows_run [OF 2]] grows_query by blast
      let ?ip = "insert_price existingStock (last_price stockData) (sd_volume stockData) now column_default"
      obtain r3 db3 where 3: "run_statement ?ip db2 = (r3, db3)"
        by (cases "run_statement ?ip db2")
      have g3: "grows db db3"
        using grows_trans [OF g2 grows_run [OF 3]] grows_insert_price by blast
      let ?ia = "insert_aggregate existingStock (sd_open_price stockData)
                   (sd_high_price stockData) (sd_low_price stockData)
                   (last_price stockData) (sd_volume stockData) (vwap stockData) now collector"
      have "grows db3 (snd (run_statement ?ia db3))"
        by (rule grows_run_statement) (rule grows_insert_aggregate)
      then have g4: "grows db (snd (run_statement ?ia db3))"
        using grows_trans [OF g3] by blast
      show ?thesis
        using g2 g3 g4
        by (simp add: processSymbol_def Inr collector_executeQuery_def 1 rows Cons 2 3
              split: sum.splits)
    qed
  qed
qed

lemma grows_on_message: "grows db (on_message msg db)"
proof (cases msg)
  case (Trade symb p v ts)
  obtain r1 db1 where 1: "run_statement (query (select_stock_ids symb)) db = (r1, db1)"
    by (cases "run_statement (query (select_stock_ids symb)) db")
  have g1: "grows db db1" using grows_run [OF 1] grows_query by blast
  have "grows db1 (snd (run_statement (insert_price sid p v ts websocket) db1))" for sid
    by (rule grows_run_statement) (rule grows_insert_price)
  then have "grows db (snd (run_statement (insert_price sid p v ts websocket) db1))" for sid
    using grows_trans [OF g1] by blast
  then show ?thesis
    using g1 by (simp add: Trade 1 split: sum.splits list.splits)
next
  case (Bar symb opn hi lo cl v vw startTs)
  obtain r1 db1 where 1: "run_statement (query (select_stock_ids symb)) db = (r1, db1)"
    by (cases "run_statement (query (select_stock_ids symb)) db")
  have g1: "grows db db1" using grows_run [OF 1] grows_query by blast
  have "grows db1 (snd (run_statement (insert_aggregate sid opn hi lo cl v vw startTs websocket) db1))" for sid
    by (rule grows_run_statement) (rule grows_insert_aggregate)
  then have "grows db (snd (run_statement (insert_aggregate sid opn hi lo cl v vw startTs websocket) db1))" for sid
    using grows_trans [OF g1] by blast
  then show ?thesis
    using g1 by (simp add: Bar 1 split: sum.splits list.splits)
qed simp_all

lemma grows_messages: "grows db (fold on_message msgs db)"
proof (induction msgs arbitrary: db)
  case Nil
  then show ?case by simp
next
  case (Cons msg msgs)
  show ?case
    using grows_trans [OF grows_on_message [of db msg] Cons.IH [of "on_message msg db"]] by simp
qed

lemma grows_round_trip: "grows w (snd (round_trip w))"
  unfolding round_trip_def by (rule grows_run_statement) simp

lemma grows_run_on:
  assumes "\<And>x. grows x (snd (statement x))"
  shows "grows w (snd (run_on conn statement w))"
  using grows_run_statement [of statement w, OF assms]
  by (simp add: run_on_def split: connection.splits)

lemma grows_write_points: "grows w (snd (write_points conn tf sid pts w))"
proof (induction pts arbitrary: w)
  case Nil
  then show ?case by simp
next
  case (Cons point others)
  let ?up = "upsert_price sid (p_price point) (js_or (p_volume point) 0) (p_time point)"
  let ?ua = "upsert_aggregate sid (js_or (p_open point) (p_price point))
      (js_or (p_high point) (p_price point)) (js_or (p_low point) (p_price point))
      (p_price point) (js_or (p_volume point) 0) (p_time point)"
  obtain r1 w1 where r1: "run_on conn ?up w = (r1, w1)" by (cases "run_on conn ?up w")
  obtain r2 w2 where r2: "run_on conn ?ua w1 = (r2, w2)" by (cases "run_on conn ?ua w1")
  have s1: "grows w w1"
    using grows_run_on [where statement = ?up, OF grows_upsert_price, of w conn] r1 by simp
  have s2: "grows w1 w2"
    using grows_run_on [where statement = ?ua, OF grows_upsert_aggregate, of w1 conn] r2 by simp
  have s12: "grows w w2" using grows_trans [OF s1 s2] .
  show ?case
    using s1 s12 grows_trans [OF s1 Cons.IH [of w1]] grows_trans [OF s12 Cons.IH [of w2]]
    by (cases "tf = minute") (auto simp: r1 r2 Let_def split: sum.splits)
qed

lemma grows_transaction: "grows w (snd (transaction conn tf sid pts w))"
proof -
  have b: "grows x (snd (beginTransaction conn x))" for x
    using grows_round_trip [of x] by (simp add: beginTransaction_def split: connection.splits)
  have c: "grows x (snd (commitTransaction conn x))" for x
    using grows_round_trip [of x] by (simp add: commitTransaction_def split: connection.splits)
  obtain r1 w1 where r1: "beginTransaction conn w = (r1, w1)" by (cases "beginTransaction conn w")
  obtain r2 w2 where r2: "write_points conn tf sid pts w1 = (r2, w2)"
    by (cases "write_points conn tf sid pts w1")
  have s1: "grows w w1" using b [of w] r1 by simp
  have s2: "grows w1 w2" using grows_write_points [of w1 conn tf sid pts] r2 by simp
  have s12: "grows w w2" using grows_trans [OF s1 s2] .
  show ?thesis
    using s1 s12 grows_trans [OF s12 c [of w2]]
    by (simp add: transaction_def r1 r2 split: sum.splits)
qed

lemma grows_rollback:
  assumes "grows w1 w2"
  shows "grows w1 (rollbackTransaction conn w1 w2)"
  using assms by (cases conn) (simp_all add: rollbackTransaction_def grows_def)

lemma grows_backfillPeriod:
  "grows w (snd (backfillPeriod upstream sid symb startT endT w))"
proof -
  have g: "grows x (snd (getConnection x))" for x
    using grows_round_trip [of x]
    by (auto simp: getConnection_def split: option.splits prod.splits sum.splits)
  obtain r1 w1 where r1: "getConnection w = (r1, w1)" by (cases "getConnection w")
  have s1: "grows w w1" using g [of w] r1 by simp
  have t: "grows w y" "grows w (rollbackTransaction conn w1 y)"
    if "transaction conn tf sid pts w1 = (r, y)" for conn tf pts r y
  proof -
    have a: "grows w1 y"
      using grows_transaction [of w1 conn tf sid pts] that by simp
    show "grows w y" using grows_trans [OF s1 a] .
    show "grows w (rollbackTransaction conn w1 y)"
      using grows_trans [OF s1 grows_rollback [OF a]] .
  qed
  show ?thesis
    using s1 t
    by (auto simp: backfillPeriod_def r1 split: option.splits sum.splits prod.splits)
qed

lemma grows_apply_write: "grows w (apply_write x w)"
  by (cases x) (simp_all add: grows_messages grows_processSymbol grows_backfillPeriod)

lemma grows_writes: "grows w (fold apply_write writes w)"
proof (induction writes arbitrary: w)
  case Nil
  then show ?case by simp
next
  case (Cons x writes)
  show ?case
    using grows_trans [OF grows_apply_write [of w x] Cons.IH [of "apply_write x w"]] by simp
qed

subsection \<open>Repairing a period twice\<close>

text \<open>
  Folding the upsert of a table over the same data points a second time changes nothing,
  when the key is unique: every point finds its row, and the row already has the values that
  the last point with its timestamp gives it.
\<close>

lemma put_row_keeps_key:
  assumes k: "\<And>pt r. stock_id (upd pt r) = stock_id r \<and> timestamp (upd pt r) = timestamp r"
    and "\<exists>r \<in> set (fst t). same_key sid ts r"
  shows "\<exists>r \<in> set (fst (put_row uniq sid upd mk pt t)). same_key sid ts r"
proof -
  from assms(2) obtain r where r: "r \<in> set (fst t)" "same_key sid ts r" by blast
  let ?step = "\<lambda>r. if same_key sid (p_time pt) r then upd pt r else r"
  have 1: "same_key sid ts (?step r)"
    using r(2) k by (simp add: same_key_def)
  have 2: "?step r \<in> set (map ?step (fst t))"
    using r(1) by (simp only: set_map image_eqI)
  have 3: "r \<in> set (fst t @ [mk pt (snd t)])"
    using r(1) by simp
  show ?thesis
  proof (cases "uniq \<and> (\<exists>r \<in> set (fst t). same_key sid (p_time pt) r)")
    case True
    then have "fst (put_row uniq sid upd mk pt t) = map ?step (fst t)"
      unfolding put_row_def by simp
    then show ?thesis using 1 2 by (simp only:) blast
  next
    case False
    then have "fst (put_row uniq sid upd mk pt t) = fst t @ [mk pt (snd t)]"
      unfolding put_row_def by simp
    then show ?thesis using r(2) 3 by (simp only:) blast
  qed
qed

lemma put_row_has_key:
  assumes k: "\<And>pt r. stock_id (upd pt r) = stock_id r \<and> timestamp (upd pt r) = timestamp r"
    and m: "\<And>pt n. stock_id (mk pt n) = sid \<and> timestamp (mk pt n) = p_time pt"
  shows "\<exists>r \<in> set (fst (put_row True sid upd mk pt t)). same_key sid (p_time pt) r"
proof (cases "\<exists>r \<in> set (fst t). same_key sid (p_time pt) r")
  case True
  then show ?thesis by (rule put_row_keeps_key [where upd = upd, OF k])
next
  case False
  then have "put_row True sid upd mk pt t = (fst t @ [mk pt (snd t)], snd t + 1)"
    unfolding put_row_def by (simp only: simp_thms if_False)
  moreover have "same_key sid (p_time pt) (mk pt (snd t))"
    using m by (simp add: same_key_def)
  ultimately show ?thesis by simp
qed

lemma fold_put_keeps_key:
  assumes k: "\<And>pt r. stock_id (upd pt r) = stock_id r \<and> timestamp (upd pt r) = timestamp r"
    and "\<exists>r \<in> set (fst t). same_key sid ts r"
  shows "\<exists>r \<in> set (fst (fold (put_row uniq sid upd mk) pts t)). same_key sid ts r"
  using assms(2)
proof (induction pts arbitrary: t)
  case Nil
  then show ?case by simp
next
  case (Cons pt pts)
  have "\<exists>r \<in> set (fst (put_row uniq sid upd mk pt t)). same_key sid ts r"
    using Cons.prems by (rule put_row_keeps_key [where upd = upd, OF k])
  from Cons.IH [OF this] show ?case by simp
qed

lemma fold_put_has_keys:
  assumes k: "\<And>pt r. stock_id (upd pt r) = stock_id r \<and> timestamp (upd pt r) = timestamp r"
    and m: "\<And>pt n. stock_id (mk pt n) = sid \<and> timestamp (mk pt n) = p_time pt"
  shows "\<forall>pt \<in> set pts. \<exists>r \<in> set (fst (fold (put_row True sid upd mk) pts t)).
           same_key sid (p_time pt) r"
proof (induction pts arbitrary: t)
  case Nil
  then show ?case by simp
next
  case (Cons p pts)
  have "\<exists>r \<in> set (fst (fold (put_row True sid upd mk) pts (put_row True sid upd mk p t))).
          same_key sid (p_time p) r"
    by (rule fold_put_keeps_key [where upd = upd, OF k put_row_has_key [where upd = upd and mk = mk, OF k m]])
  then show ?case using Cons.IH [of "put_row True sid upd mk p t"] by simp
qed

lemma fold_put_updates:
  assumes k: "\<And>pt r. stock_id (upd pt r) = stock_id r \<and> timestamp (upd pt r) = timestamp r"
    and "\<forall>pt \<in> set pts. \<exists>r \<in> set rows. same_key sid (p_time pt) r"
  shows "fold (put_row True sid upd mk) pts (rows, n) =
           (map (fold (\<lambda>pt r. if same_key sid (p_time pt) r then upd pt r else r) pts) rows, n)"
  using assms(2)
proof (induction pts arbitrary: rows)
  case Nil
  then show ?case by simp
next
  case (Cons p pts)
  let ?step = "\<lambda>pt r. if same_key sid (p_time pt) r then upd pt r else r"
  have 1: "put_row True sid upd mk p (rows, n) = (map (?step p) rows, n)"
    using Cons.prems by (simp add: put_row_def)
  have key: "same_key sid ts (?step p r) = same_key sid ts r" for ts r
    using k by (simp add: same_key_def)
  have 2: "\<forall>pt \<in> set pts. \<exists>r \<in> set (map (?step p) rows). same_key sid (p_time pt) r"
  proof
    fix pt assume "pt \<in> set pts"
    then obtain r where "r \<in> set rows" "same_key sid (p_time pt) r"
      using Cons.prems by auto
    then have "?step p r \<in> set (map (?step p) rows)" "same_key sid (p_time pt) (?step p r)"
      using key by auto
    then show "\<exists>r \<in> set (map (?step p) rows). same_key sid (p_time pt) r" by blast
  qed
  show ?case
    using Cons.IH [OF 2] by (simp add: 1 comp_def)
qed

lemma fold_step_key:
  assumes k: "\<And>pt r. stock_id (upd pt r) = stock_id r \<and> timestamp (upd pt r) = timestamp r"
  shows "same_key sid ts (fold (\<lambda>pt r. if same_key sid (p_time pt) r then upd pt r else r) pts r)
           = same_key sid ts r"
proof (induction pts arbitrary: r)
  case Nil
  then show ?case by simp
next
  case (Cons p pts)
  have key: "same_key sid ts (if same_key sid (p_time p) r then upd p r else r) = same_key sid ts r"
    using k by (simp add: same_key_def)
  show ?case
    using Cons.IH [of "if same_key sid (p_time p) r then upd p r else r"] key by simp
qed

lemma upd_absorbs_fold:
  assumes a: "\<And>pt pt' r. upd pt (upd pt' r) = upd pt r"
  shows "upd pt (fold (\<lambda>pt r. if same_key sid (p_time pt) r then upd pt r else r) pts r) = upd pt r"
proof (induction pts arbitrary: r)
  case Nil
  then show ?case by simp
next
  case (Cons p pts)
  show ?case using a by (simp add: Cons.IH)
qed

lemma fold_put_fixed:
  assumes k: "\<And>pt r. stock_id (upd pt r) = stock_id r \<and> timestamp (upd pt r) = timestamp r"
    and m: "\<And>pt n. stock_id (mk pt n) = sid \<and> timestamp (mk pt n) = p_time pt"
    and i: "\<And>pt n. upd pt (mk pt n) = mk pt n"
    and a: "\<And>pt pt' r. upd pt (upd pt' r) = upd pt r"
  shows "\<forall>r \<in> set (fst (fold (put_row True sid upd mk) pts t)).
           fold (\<lambda>pt r. if same_key sid (p_time pt) r then upd pt r else r) pts r = r"
proof (induction pts rule: rev_induct)
  case Nil
  then show ?case by simp
next
  case (snoc pt pts)
  let ?step = "\<lambda>pt r. if same_key sid (p_time pt) r then upd pt r else r"
  let ?T = "fold (put_row True sid upd mk) pts t"
  have matching: "fold ?step (pts @ [pt]) x = upd pt x" if "same_key sid (p_time pt) x" for x
  proof -
    have 1: "same_key sid (p_time pt) (fold ?step pts x)"
      using that
        fold_step_key [where upd = upd and sid = sid and ts = "p_time pt" and pts = pts and r = x, OF k]
      by (simp only:)
    have 2: "upd pt (fold ?step pts x) = upd pt x"
      by (rule upd_absorbs_fold [where upd = upd, OF a])
    have "fold ?step (pts @ [pt]) x = ?step pt (fold ?step pts x)" by simp
    also have "\<dots> = upd pt (fold ?step pts x)" using 1 by (simp only: if_True)
    finally show ?thesis using 2 by (simp only:)
  qed
  show ?case
  proof
    fix r' assume r': "r' \<in> set (fst (fold (put_row True sid upd mk) (pts @ [pt]) t))"
    then have in_put: "r' \<in> set (fst (put_row True sid upd mk pt ?T))" by simp
    show "fold ?step (pts @ [pt]) r' = r'"
    proof (cases "\<exists>r \<in> set (fst ?T). same_key sid (p_time pt) r")
      case True
      then obtain r0 where r0: "r0 \<in> set (fst ?T)" "r' = ?step pt r0"
        using in_put by (auto simp: put_row_def)
      show ?thesis
      proof (cases "same_key sid (p_time pt) r0")
        case same: True
        then have e: "r' = upd pt r0" using r0(2) by simp
        have "same_key sid (p_time pt) r'" using same k e by (simp add: same_key_def)
        from matching [OF this] have "fold ?step (pts @ [pt]) r' = upd pt r'" .
        also have "\<dots> = r'" unfolding e by (rule a)
        finally show ?thesis .
      next
        case False
        then have e: "r' = r0" using r0(2) by simp
        have "fold ?step pts r0 = r0" using snoc.IH r0(1) by blast
        then show ?thesis using False by (simp add: e)
      qed
    next
      case False
      then have "r' \<in> set (fst ?T) \<or> r' = mk pt (snd ?T)"
        using in_put by (auto simp: put_row_def)
      then show ?thesis
      proof
        assume r: "r' \<in> set (fst ?T)"
        then have n: "\<not> same_key sid (p_time pt) r'" using False by blast
        have "fold ?step pts r' = r'" using snoc.IH r by blast
        then show ?thesis using n by simp
      next
        assume e: "r' = mk pt (snd ?T)"
        then have "same_key sid (p_time pt) r'" using m by (simp add: same_key_def)
        from matching [OF this] have "fold ?step (pts @ [pt]) r' = upd pt r'" .
        also have "\<dots> = r'" unfolding e by (rule i)
        finally show ?thesis .
      qed
    qed
  qed
qed

lemma fold_put_idempotent:
  assumes k: "\<And>pt r. stock_id (upd pt r) = stock_id r \<and> timestamp (upd pt r) = timestamp r"
    and m: "\<And>pt n. stock_id (mk pt n) = sid \<and> timestamp (mk pt n) = p_time pt"
    and i: "\<And>pt n. upd pt (mk pt n) = mk pt n"
    and a: "\<And>pt pt' r. upd pt (upd pt' r) = upd pt r"
  shows "fold (put_row True sid upd mk) pts (fold (put_row True sid upd mk) pts t) =
           fold (put_row True sid upd mk) pts t"
proof -
  obtain rows n where T: "fold (put_row True sid upd mk) pts t = (rows, n)"
    by (cases "fold (put_row True sid upd mk) pts t")
  have keys: "\<forall>pt \<in> set pts. \<exists>r \<in> set rows. same_key sid (p_time pt) r"
    using fold_put_has_keys [where upd = upd and mk = mk and sid = sid and pts = pts and t = t, OF k m] T by simp
  have fixed: "\<forall>r \<in> set rows.
      fold (\<lambda>pt r. if same_key sid (p_time pt) r then upd pt r else r) pts r = r"
    using fold_put_fixed [where upd = upd and mk = mk and sid = sid and pts = pts and t = t, OF k m i a] T by simp
  have "map (fold (\<lambda>pt r. if same_key sid (p_time pt) r then upd pt r else r) pts) rows = rows"
    using fixed by (simp add: map_idI)
  then show ?thesis
    using fold_put_updates [where upd = upd and mk = mk and sid = sid and pts = pts and rows = rows and n = n, OF k keys] by (simp add: T)
qed

text \<open>
  A repair that returns has sent every statement, so each table is the fold of its upsert
  over the data points; and on a store without faults, with a pool that has a way to send a
  statement, a repair for which the provider has data does return.
\<close>

lemma run_statement_returns:
  assumes "run_statement statement db = (Inr u, db')"
  shows "statement (db\<lparr>round_trips := Suc (round_trips db)\<rparr>) = (Inr u, db')"
  using assms by (simp add: run_statement_def Let_def split: option.splits)

lemma run_on_returns:
  assumes "run_on conn statement w = (Inr u, w')"
  shows "statement (w\<lparr>round_trips := Suc (round_trips w)\<rparr>) = (Inr u, w')"
proof (cases conn)
  case PooledConnection
  then have "run_statement statement w = (Inr u, w')"
    using assms by (simp add: run_on_def)
  then show ?thesis by (rule run_statement_returns)
next
  case (ThePool p)
  then have "run_statement statement w = (Inr u, w')"
    using assms by (simp add: run_on_def split: if_splits)
  then show ?thesis by (rule run_statement_returns)
qed

lemma round_trip_tables:
  assumes "round_trip w = (r, w')"
  shows "price_table w' = price_table w" "aggregate_table w' = aggregate_table w"
    "unique_timestamps w' = unique_timestamps w" "pool w' = pool w"
  using assms
  by (auto simp: round_trip_def run_statement_def Let_def price_table_def aggregate_table_def
      split: option.splits)

lemma upsert_price_tables:
  assumes "upsert_price sid (p_price pt) (js_or (p_volume pt) 0) (p_time pt) db = (r, db')"
  shows "price_table db' = put_row (unique_timestamps db) sid update_price_row (new_price_row sid) pt (price_table db)"
    and "aggregate_table db' = aggregate_table db"
    and "unique_timestamps db' = unique_timestamps db"
proof -
  show "price_table db' =
      put_row (unique_timestamps db) sid update_price_row (new_price_row sid) pt (price_table db)"
  proof (cases "unique_timestamps db \<and> (\<exists>r \<in> set (price_history db). same_key sid (p_time pt) r)")
    case True
    then show ?thesis
      using assms
      by (auto simp: upsert_price_def put_row_def price_table_def update_price_row_def)
  next
    case False
    have "db' = db\<lparr>price_history := price_history db @
                  [\<lparr>row_id = price_history_next_id db, stock_id = sid, timestamp = p_time pt,
                    source = rest, volume = js_or (p_volume pt) 0, price = p_price pt\<rparr>],
               price_history_next_id := price_history_next_id db + 1\<rparr>"
      using assms unfolding upsert_price_def if_not_P [OF False] by simp
    moreover have "put_row (unique_timestamps db) sid update_price_row (new_price_row sid) pt (price_table db)
        = (price_history db @ [new_price_row sid pt (price_history_next_id db)],
           price_history_next_id db + 1)"
      unfolding put_row_def price_table_def fst_conv snd_conv if_not_P [OF False] ..
    ultimately show ?thesis by (simp add: price_table_def new_price_row_def)
  qed
  show "aggregate_table db' = aggregate_table db"
    using assms by (auto simp: upsert_price_def aggregate_table_def split: if_splits)
  show "unique_timestamps db' = unique_timestamps db"
    using assms by (auto simp: upsert_price_def split: if_splits)
qed

lemma upsert_aggregate_tables:
  assumes "upsert_aggregate sid (js_or (p_open pt) (p_price pt)) (js_or (p_high pt) (p_price pt))
             (js_or (p_low pt) (p_price pt)) (p_price pt) (js_or (p_volume pt) 0) (p_time pt) db
           = (r, db')"
  shows "aggregate_table db' =
      put_row (unique_timestamps db) sid update_aggregate_row (new_aggregate_row sid) pt (aggregate_table db)"
    and "price_table db' = price_table db"
    and "unique_timestamps db' = unique_timestamps db"
proof -
  show "aggregate_table db' =
      put_row (unique_timestamps db) sid update_aggregate_row (new_aggregate_row sid) pt (aggregate_table db)"
  proof (cases "unique_timestamps db \<and> (\<exists>r \<in> set (aggregate_history db). same_key sid (p_time pt) r)")
    case True
    then show ?thesis
      using assms
      by (auto simp: upsert_aggregate_def put_row_def aggregate_table_def update_aggregate_row_def)
  next
    case False
    have "db' = db\<lparr>aggregate_history := aggregate_history db @
                  [\<lparr>row_id = aggregate_history_next_id db, stock_id = sid, timestamp = p_time pt,
                    source = rest, volume = js_or (p_volume pt) 0,
                    open_price = js_or (p_open pt) (p_price pt),
                    high_price = js_or (p_high pt) (p_price pt),
                    low_price = js_or (p_low pt) (p_price pt),
                    close_price = p_price pt, volume_weighted_avg = None\<rparr>],
               aggregate_history_next_id := aggregate_history_next_id db + 1\<rparr>"
      using assms unfolding upsert_aggregate_def if_not_P [OF False] by simp
    moreover have "put_row (unique_timestamps db) sid update_aggregate_row (new_aggregate_row sid) pt
          (aggregate_table db)
        = (aggregate_history db @ [new_aggregate_row sid pt (aggregate_history_next_id db)],
           aggregate_history_next_id db + 1)"
      unfolding put_row_def aggregate_table_def fst_conv snd_conv if_not_P [OF False] ..
    ultimately show ?thesis by (simp add: aggregate_table_def new_aggregate_row_def)
  qed
  show "price_table db' = price_table db"
    using assms by (auto simp: upsert_aggregate_def price_table_def split: if_splits)
  show "unique_timestamps db' = unique_timestamps db"
    using assms by (auto simp: upsert_aggregate_def split: if_splits)
qed

lemma tables_round_trips [simp]:
  "price_table (db\<lparr>round_trips := n\<rparr>) = price_table db"
  "aggregate_table (db\<lparr>round_trips := n\<rparr>) = aggregate_table db"
  by (simp_all add: price_table_def aggregate_table_def)

lemma write_points_tables:
  assumes "write_points conn tf sid pts w = (Inr u, w')"
  shows "price_table w' =
           fold (put_row (unique_timestamps w) sid update_price_row (new_price_row sid)) pts (price_table w)
         \<and> aggregate_table w' =
           (if tf \<noteq> minute
            then fold (put_row (unique_timestamps w) sid update_aggregate_row (new_aggregate_row sid)) pts
                   (aggregate_table w)
            else aggregate_table w)
         \<and> unique_timestamps w' = unique_timestamps w"
  using assms
proof (induction pts arbitrary: w)
  case Nil
  then show ?case by simp
next
  case (Cons point others)
  let ?up = "upsert_price sid (p_price point) (js_or (p_volume point) 0) (p_time point)"
  let ?ua = "upsert_aggregate sid (js_or (p_open point) (p_price point))
      (js_or (p_high point) (p_price point)) (js_or (p_low point) (p_price point))
      (p_price point) (js_or (p_volume point) 0) (p_time point)"
  obtain r1 w1 where r1: "run_on conn ?up w = (r1, w1)" by (cases "run_on conn ?up w")
  then obtain u1 where u1: "r1 = Inr u1"
    using Cons.prems by (cases r1) (simp_all)
  have s1: "?up (w\<lparr>round_trips := Suc (round_trips w)\<rparr>) = (Inr u1, w1)"
    by (rule run_on_returns [where statement = ?up, OF r1 [unfolded u1]])
  note t1 = upsert_price_tables [OF s1]
  show ?case
  proof (cases "tf = minute")
    case True
    then have rest: "write_points conn tf sid others w1 = (Inr u, w')"
      using Cons.prems r1 u1 by (simp add: Let_def)
    show ?thesis
      using Cons.IH [OF rest] t1 True by simp
  next
    case False
    obtain r2 w2 where r2: "run_on conn ?ua w1 = (r2, w2)" by (cases "run_on conn ?ua w1")
    then obtain u2 where u2: "r2 = Inr u2"
      using Cons.prems r1 u1 False by (cases r2) (simp_all add: Let_def)
    have s2: "?ua (w1\<lparr>round_trips := Suc (round_trips w1)\<rparr>) = (Inr u2, w2)"
      by (rule run_on_returns [where statement = ?ua, OF r2 [unfolded u2]])
    note t2 = upsert_aggregate_tables [OF s2]
    have rest: "write_points conn tf sid others w2 = (Inr u, w')"
      using Cons.prems r1 u1 r2 u2 False by (simp add: Let_def)
    show ?thesis
      using Cons.IH [OF rest] t1 t2 False by simp
  qed
qed

lemma transaction_tables:
  assumes "transaction conn tf sid pts w = (Inr u, w')"
  shows "price_table w' =
           fold (put_row (unique_timestamps w) sid update_price_row (new_price_row sid)) pts (price_table w)
         \<and> aggregate_table w' =
           (if tf \<noteq> minute
            then fold (put_row (unique_timestamps w) sid update_aggregate_row (new_aggregate_row sid)) pts
                   (aggregate_table w)
            else aggregate_table w)
         \<and> unique_timestamps w' = unique_timestamps w"
proof -
  obtain r1 w1 where r1: "beginTransaction conn w = (r1, w1)" by (cases "beginTransaction conn w")
  then obtain u1 where u1: "r1 = Inr u1"
    using assms by (cases r1) (simp_all add: transaction_def)
  obtain r2 w2 where r2: "write_points conn tf sid pts w1 = (r2, w2)"
    by (cases "write_points conn tf sid pts w1")
  then obtain u2 where u2: "r2 = Inr u2"
    using assms r1 u1 by (cases r2) (simp_all add: transaction_def)
  have c: "commitTransaction conn w2 = (Inr u, w')"
    using assms r1 u1 r2 u2 by (simp add: transaction_def)
  have b1: "price_table w1 = price_table w \<and> aggregate_table w1 = aggregate_table w
            \<and> unique_timestamps w1 = unique_timestamps w"
    using r1 round_trip_tables [of w r1 w1]
    by (cases conn) (auto simp: beginTransaction_def)
  have b2: "price_table w' = price_table w2 \<and> aggregate_table w' = aggregate_table w2
            \<and> unique_timestamps w' = unique_timestamps w2"
    using c round_trip_tables [of w2 "Inr u" w']
    by (cases conn) (auto simp: commitTransaction_def)
  show ?thesis
    using write_points_tables [OF r2 [unfolded u2]] b1 b2 by simp
qed

lemma getConnection_tables:
  assumes "getConnection w = (r, w')"
  shows "price_table w' = price_table w \<and> aggregate_table w' = aggregate_table w
         \<and> unique_timestamps w' = unique_timestamps w"
proof (cases "pool w")
  case None
  then show ?thesis using assms by (auto simp: getConnection_def)
next
  case (Some p)
  obtain r1 w1 where r1: "round_trip w = (r1, w1)" by (cases "round_trip w")
  show ?thesis
    using assms Some r1 round_trip_tables [OF r1]
    by (auto simp: getConnection_def split: if_splits sum.splits)
qed

lemma backfillPeriod_tables:
  assumes "backfillPeriod upstream sid symb startT endT w = (Inr pts, w')"
  shows "upstream symb (determineTimeframe startT endT) startT endT = Inr pts"
    and "price_table w' =
           fold (put_row (unique_timestamps w) sid update_price_row (new_price_row sid)) pts (price_table w)"
    and "aggregate_table w' =
           (if determineTimeframe startT endT \<noteq> minute
            then fold (put_row (unique_timestamps w) sid update_aggregate_row (new_aggregate_row sid)) pts
                   (aggregate_table w)
            else aggregate_table w)"
    and "unique_timestamps w' = unique_timestamps w"
proof -
  let ?tf = "determineTimeframe startT endT"
  obtain p where p: "pool w = Some p"
    using assms by (cases "pool w") (simp_all add: backfillPeriod_def)
  obtain dataPoints where d: "upstream symb ?tf startT endT = Inr dataPoints"
    using assms p by (cases "upstream symb ?tf startT endT") (simp_all add: backfillPeriod_def)
  have all: "dataPoints = pts \<and> price_table w' =
           fold (put_row (unique_timestamps w) sid update_price_row (new_price_row sid)) pts (price_table w)
         \<and> aggregate_table w' =
           (if ?tf \<noteq> minute
            then fold (put_row (unique_timestamps w) sid update_aggregate_row (new_aggregate_row sid)) pts
                   (aggregate_table w)
            else aggregate_table w)
         \<and> unique_timestamps w' = unique_timestamps w"
  proof (cases "dataPoints = []")
    case True
    then show ?thesis using assms p d by (simp add: backfillPeriod_def)
  next
    case False
    obtain r1 w1 where r1: "getConnection w = (r1, w1)" by (cases "getConnection w")
    then obtain conn where conn: "r1 = Inr conn"
      using assms p d False by (cases r1) (simp_all add: backfillPeriod_def)
    obtain r2 w2 where r2: "transaction conn ?tf sid dataPoints w1 = (r2, w2)"
      by (cases "transaction conn ?tf sid dataPoints w1")
    then obtain u2 where u2: "r2 = Inr u2"
      using assms p d False r1 conn by (cases r2) (simp_all add: backfillPeriod_def)
    have e: "dataPoints = pts" "w' = w2"
      using assms p d False r1 conn r2 u2 by (simp_all add: backfillPeriod_def)
    show ?thesis
      using transaction_tables [OF r2 [unfolded u2]] getConnection_tables [OF r1] e by simp
  qed
  show "upstream symb ?tf startT endT = Inr pts" using d all by simp
  show "price_table w' =
           fold (put_row (unique_timestamps w) sid update_price_row (new_price_row sid)) pts (price_table w)"
    using all by simp
  show "aggregate_table w' =
           (if ?tf \<noteq> minute
            then fold (put_row (unique_timestamps w) sid update_aggregate_row (new_aggregate_row sid)) pts
                   (aggregate_table w)
            else aggregate_table w)"
    using all by simp
  show "unique_timestamps w' = unique_timestamps w" using all by simp
qed

lemma price_put_idempotent:
  "fold (put_row True sid update_price_row (new_price_row sid)) pts
     (fold (put_row True sid update_price_row (new_price_row sid)) pts t) =
   fold (put_row True sid update_price_row (new_price_row sid)) pts t"
  by (rule fold_put_idempotent [where upd = update_price_row and mk = "new_price_row sid"])
    (simp_all add: update_price_row_def new_price_row_def)

lemma aggregate_put_idempotent:
  "fold (put_row True sid update_aggregate_row (new_aggregate_row sid)) pts
     (fold (put_row True sid update_aggregate_row (new_aggregate_row sid)) pts t) =
   fold (put_row True sid update_aggregate_row (new_aggregate_row sid)) pts t"
  by (rule fold_put_idempotent [where upd = update_aggregate_row and mk = "new_aggregate_row sid"])
    (simp_all add: update_aggregate_row_def new_aggregate_row_def)


lemma run_on_healthy:
  assumes "healthy w" and "usable conn"
  shows "run_on conn statement w = statement (w\<lparr>round_trips := Suc (round_trips w)\<rparr>)"
  using assms run_statement_healthy [of w statement]
  by (cases conn) (simp_all add: run_on_def usable_def)

lemma round_trip_healthy:
  assumes "healthy w"
  shows "round_trip w = (Inr (), w\<lparr>round_trips := Suc (round_trips w)\<rparr>)"
  using assms by (simp add: round_trip_def run_statement_healthy)

lemma upsert_price_returns:
  "fst (upsert_price sid p v ts db) = Inr ()"
  "healthy (snd (upsert_price sid p v ts db)) = healthy db"
  by (simp_all add: upsert_price_def healthy_def)

lemma upsert_aggregate_returns:
  "fst (upsert_aggregate sid opn hi lo cl v ts db) = Inr ()"
  "healthy (snd (upsert_aggregate sid opn hi lo cl v ts db)) = healthy db"
  by (simp_all add: upsert_aggregate_def healthy_def)

lemma write_points_healthy:
  assumes "healthy w" and "usable conn"
  shows "fst (write_points conn tf sid pts w) = Inr () \<and> healthy (snd (write_points conn tf sid pts w))"
  using assms(1)
proof (induction pts arbitrary: w)
  case Nil
  then show ?case by simp
next
  case (Cons point others)
  let ?up = "upsert_price sid (p_price point) (js_or (p_volume point) 0) (p_time point)"
  let ?ua = "upsert_aggregate sid (js_or (p_open point) (p_price point))
      (js_or (p_high point) (p_price point)) (js_or (p_low point) (p_price point))
      (p_price point) (js_or (p_volume point) 0) (p_time point)"
  define w0 where "w0 = w\<lparr>round_trips := Suc (round_trips w)\<rparr>"
  define w1 where "w1 = snd (?up w0)"
  define w1' where "w1' = w1\<lparr>round_trips := Suc (round_trips w1)\<rparr>"
  define w2 where "w2 = snd (?ua w1')"
  have h0: "healthy w0" using Cons.prems by (simp add: w0_def)
  have h1: "healthy w1" using h0 by (simp add: w1_def upsert_price_returns)
  have h1': "healthy w1'" using h1 by (simp add: w1'_def)
  have h2: "healthy w2" using h1' by (simp add: w2_def upsert_aggregate_returns)
  have r1: "run_on conn ?up w = (Inr (), w1)"
    unfolding run_on_healthy [OF Cons.prems assms(2)] w1_def w0_def [symmetric]
    using upsert_price_returns(1) [of sid "p_price point" "js_or (p_volume point) 0" "p_time point" w0]
    by (simp add: prod_eq_iff)
  have r2: "run_on conn ?ua w1 = (Inr (), w2)"
    unfolding run_on_healthy [OF h1 assms(2)] w2_def w1'_def [symmetric]
    using upsert_aggregate_returns(1) [of sid _ _ _ _ _ _ w1']
    by (simp add: prod_eq_iff)
  show ?case
  proof (cases "tf = minute")
    case True
    then show ?thesis using Cons.IH [OF h1] by (simp add: r1 Let_def)
  next
    case False
    then show ?thesis using Cons.IH [OF h2] by (simp add: r1 r2 Let_def)
  qed
qed

lemma transaction_healthy:
  assumes "healthy w" and "usable conn"
  shows "fst (transaction conn tf sid pts w) = Inr () \<and> healthy (snd (transaction conn tf sid pts w))"
proof -
  obtain w1 where b: "beginTransaction conn w = (Inr (), w1)" and h1: "healthy w1"
    using assms(1) round_trip_healthy [OF assms(1)]
    by (cases conn) (simp_all add: beginTransaction_def)
  obtain r2 w2 where r2: "write_points conn tf sid pts w1 = (r2, w2)"
    by (cases "write_points conn tf sid pts w1")
  have ok: "r2 = Inr ()" "healthy w2"
    using write_points_healthy [OF h1 assms(2), of tf sid pts] r2 by simp_all
  have c: "fst (commitTransaction conn w2) = Inr () \<and> healthy (snd (commitTransaction conn w2))"
    using ok(2) round_trip_healthy [OF ok(2)]
    by (cases conn) (simp_all add: commitTransaction_def)
  show ?thesis
    using c by (simp add: transaction_def b r2 ok(1))
qed

lemma backfillPeriod_healthy:
  assumes h: "healthy w" and p: "pool w = Some p"
    and m: "has_getConnection p \<or> has_execute p \<or> has_query p"
    and u: "upstream symb (determineTimeframe startT endT) startT endT = Inr pts"
  shows "fst (backfillPeriod upstream sid symb startT endT w) = Inr pts"
    and "healthy (snd (backfillPeriod upstream sid symb startT endT w))"
    and "pool (snd (backfillPeriod upstream sid symb startT endT w)) = Some p"
proof -
  let ?tf = "determineTimeframe startT endT"
  have both: "fst (backfillPeriod upstream sid symb startT endT w) = Inr pts
         \<and> healthy (snd (backfillPeriod upstream sid symb startT endT w))"
  proof (cases "pts = []")
    case True
    then show ?thesis using h p u by (simp add: backfillPeriod_def)
  next
    case False
    obtain conn w1 where g: "getConnection w = (Inr conn, w1)" and h1: "healthy w1"
      and us: "usable conn"
    proof (cases "has_getConnection p")
      case True
      show ?thesis
        by (rule that [of PooledConnection "w\<lparr>round_trips := Suc (round_trips w)\<rparr>"])
          (simp_all add: getConnection_def p True round_trip_healthy [OF h] h usable_def)
    next
      case False
      show ?thesis
        by (rule that [of "ThePool p" w])
          (use m False in \<open>simp_all add: getConnection_def p h usable_def\<close>)
    qed
    obtain r2 w2 where r2: "transaction conn ?tf sid pts w1 = (r2, w2)"
      by (cases "transaction conn ?tf sid pts w1")
    have ok: "r2 = Inr ()" "healthy w2"
      using transaction_healthy [OF h1 us, of ?tf sid pts] r2 by simp_all
    show ?thesis
      using False by (simp add: backfillPeriod_def p u g r2 ok)
  qed
  show "fst (backfillPeriod upstream sid symb startT endT w) = Inr pts" using both by simp
  show "healthy (snd (backfillPeriod upstream sid symb startT endT w))" using both by simp
  show "pool (snd (backfillPeriod upstream sid symb startT endT w)) = Some p"
    using backfillPeriod_same_jobs [where upstream = upstream and sid = sid and symb = symb and w = w] p
    by (simp add: same_jobs_def)
qed

lemma example_repairs:
  "example_repair example_world = (Inr example_points, once_repaired)"
  "example_repair once_repaired = (Inr example_points, twice_repaired)"
proof -
  have m: "has_getConnection mysql_pool \<or> has_execute mysql_pool \<or> has_query mysql_pool"
    by (simp add: mysql_pool_def)
  have u: "example_upstream ''AAPL'' (determineTimeframe 0 172800000) 0 172800000 = Inr example_points"
    by (simp add: example_upstream_def)
  note a = backfillPeriod_healthy [where upstream = example_upstream and sid = 1,
      OF example_world_facts(1) example_world_facts(2) m u]
  show "example_repair example_world = (Inr example_points, once_repaired)"
    using a(1) by (simp add: example_repair_def once_repaired_def prod_eq_iff)
  have h: "healthy once_repaired" "pool once_repaired = Some mysql_pool"
    using a(2,3) by (simp_all add: once_repaired_def example_repair_def)
  note b = backfillPeriod_healthy [where upstream = example_upstream and sid = 1, OF h m u]
  show "example_repair once_repaired = (Inr example_points, twice_repaired)"
    using b(1) by (simp add: example_repair_def twice_repaired_def prod_eq_iff)
qed

lemma example_timeframe: "determineTimeframe 0 172800000 = hour"
  by (simp add: determineTimeframe_def Let_def)

lemma once_repaired_rows:
  "map price (price_history once_repaired) = [100, 101, 100, 102]"
  "map timestamp (price_history once_repaired) = [0, 300000, 1800000, 600000]"
  "map close_price (aggregate_history once_repaired) = [101, 102]"
  "map timestamp (aggregate_history once_repaired) = [300000, 600000]"
proof -
  note t = backfillPeriod_tables [OF example_repairs(1) [unfolded example_repair_def]]
  have u: "unique_timestamps example_world" by (simp add: example_world_def)
  have p: "price_table once_repaired =
      ([example_point 1 0, (example_point 2 300000)\<lparr>price := 101, volume := 500\<rparr>,
        example_point 3 1800000,
        \<lparr>row_id = 4, stock_id = 1, timestamp = 600000, source = rest, volume = 0, price = 102\<rparr>], 5)"
    unfolding t(2)
    by (simp add: u example_points_def price_table_def example_world_def put_row_def
        same_key_def example_point_def update_price_row_def new_price_row_def js_or_def)
  have a: "map (\<lambda>r. (timestamp r, close_price r)) (fst (aggregate_table once_repaired)) =
      [(300000, 101), (600000, 102)]"
    unfolding t(3) example_timeframe
    by (simp add: u example_points_def aggregate_table_def example_world_def put_row_def
        same_key_def new_aggregate_row_def js_or_def)
  show "map price (price_history once_repaired) = [100, 101, 100, 102]"
    "map timestamp (price_history once_repaired) = [0, 300000, 1800000, 600000]"
    using p by (simp_all add: price_table_def example_point_def)
  have a1: "map fst (map (\<lambda>r. (timestamp r, close_price r)) (aggregate_history once_repaired))
      = [300000, 600000]"
    and a2: "map snd (map (\<lambda>r. (timestamp r, close_price r)) (aggregate_history once_repaired))
      = [101, 102]"
    using a by (simp_all add: aggregate_table_def)
  show "map close_price (aggregate_history once_repaired) = [101, 102]"
    using a2 by (simp add: comp_def)
  show "map timestamp (aggregate_history once_repaired) = [300000, 600000]"
    using a1 by (simp add: comp_def)
qed


text \<open>
  Claim C5. Backfill is idempotent. The tables declare the unique key over
  \<^verbatim>\<open>(stock_id, timestamp)\<close>. When \<^verbatim>\<open>backfillPeriod\<close> has returned for a period, and
  is run again for the same stock and span and returns again, then the second run got the
  same data points and leaves both history tables exactly as the first run left them: no
  row is added and the set of row keys is the same, the rows keep the price and volume
  fields that the first run wrote. If no two rows of a table had the same key before the
  first run, no two have after the second.
\<close>

theorem backfillPeriod_idempotent:
  assumes uniq: "unique_timestamps w"
    and first: "backfillPeriod upstream sid symb startT endT w = (Inr pts, w1)"
    and second: "backfillPeriod upstream sid symb startT endT w1 = (Inr pts', w2)"
  shows "pts' = pts
    \<and> price_history w2 = price_history w1
    \<and> aggregate_history w2 = aggregate_history w1
    \<and> (keys_unique (price_history w) \<longrightarrow> keys_unique (price_history w2))
    \<and> (keys_unique (aggregate_history w) \<longrightarrow> keys_unique (aggregate_history w2))"
proof -
  note a = backfillPeriod_tables [OF first]
  note b = backfillPeriod_tables [OF second]
  have u1: "unique_timestamps w1" using a(4) uniq by simp
  have same: "pts' = pts" using a(1) b(1) by simp
  have "price_table w2 = price_table w1"
    using b(2) a(2) uniq u1 price_put_idempotent by (simp add: same)
  then have p: "price_history w2 = price_history w1" by (simp add: price_table_def)
  have "aggregate_table w2 = aggregate_table w1"
    using b(3) a(3) uniq u1 aggregate_put_idempotent by (simp add: same)
  then have q: "aggregate_history w2 = aggregate_history w1" by (simp add: aggregate_table_def)
  have g1: "grows w w1"
    using grows_backfillPeriod [of w upstream sid symb startT endT] first by simp
  have g2: "grows w1 w2"
    using grows_backfillPeriod [of w1 upstream sid symb startT endT] second by simp
  have g: "grows w w2" using grows_trans [OF g1 g2] .
  have k: "keys_unique (price_history w) \<longrightarrow> keys_unique (price_history w2)"
    using g uniq by (simp add: grows_def)
  have l: "keys_unique (aggregate_history w) \<longrightarrow> keys_unique (aggregate_history w2)"
    using g uniq by (simp add: grows_def)
  show ?thesis using same p q k l by blast
qed

theorem backfillPeriod_idempotent_witness:
  "unique_timestamps example_world
   \<and> backfillPeriod example_upstream 1 ''AAPL'' 0 172800000 example_world
       = (Inr example_points, once_repaired)
   \<and> backfillPeriod example_upstream 1 ''AAPL'' 0 172800000 once_repaired
       = (Inr example_points, twice_repaired)
   \<and> price_history twice_repaired = price_history once_repaired
   \<and> aggregate_history twice_repaired = aggregate_history once_repaired
   \<and> map timestamp (price_history once_repaired) = [0, 300000, 1800000, 600000]
   \<and> map price (price_history once_repaired) = [100, 101, 100, 102]
   \<and> map timestamp (aggregate_history once_repaired) = [300000, 600000]
   \<and> keys_unique (price_history twice_repaired)
   \<and> keys_unique (aggregate_history twice_repaired)"
proof -
  have u: "unique_timestamps example_world" by (simp add: example_world_def)
  have k: "keys_unique (price_history example_world)" "keys_unique (aggregate_history example_world)"
    by (simp_all add: keys_unique_def row_key_def example_world_def example_point_def)
  note r = example_repairs [unfolded example_repair_def]
  note i = backfillPeriod_idempotent [OF u r]
  show ?thesis
    using u r i k once_repaired_rows by blast
qed

subsection \<open>One row per key\<close>

text \<open>
  The statements of the two collectors are plain inserts: whatever round trips fail, a write
  of a collector leaves every stored row as it is.
\<close>

lemma keeps_rows_refl [simp]: "keeps_rows db db"
  by (simp add: keeps_rows_def)

lemma keeps_rows_trans:
  assumes "keeps_rows a b" and "keeps_rows b c"
  shows "keeps_rows a c"
proof -
  have 1: "prefix (price_history a) (price_history b)" "prefix (price_history b) (price_history c)"
    and 2: "prefix (aggregate_history a) (aggregate_history b)"
      "prefix (aggregate_history b) (aggregate_history c)"
    using assms by (simp_all add: keeps_rows_def)
  have "prefix (price_history a) (price_history c)"
    using 1 by (rule prefix_order.trans)
  moreover have "prefix (aggregate_history a) (aggregate_history c)"
    using 2 by (rule prefix_order.trans)
  ultimately show ?thesis by (simp add: keeps_rows_def)
qed

lemma keeps_rows_round_trips [simp]:
  "keeps_rows db (db'\<lparr>round_trips := n\<rparr>) = keeps_rows db db'"
  by (simp add: keeps_rows_def)

lemma keeps_rows_query: "keeps_rows db (snd (query sel db))"
  by (simp add: query_def)

lemma keeps_rows_insert_price: "keeps_rows db (snd (insert_price sid p v ts src db))"
proof (cases "unique_timestamps db \<and> (\<exists>r \<in> set (price_history db). same_key sid ts r)")
  case True
  then show ?thesis by (simp add: insert_price_def)
next
  case False
  show ?thesis
    unfolding insert_price_def if_not_P [OF False] snd_conv
    by (simp add: keeps_rows_def)
qed

lemma keeps_rows_insert_aggregate:
  "keeps_rows db (snd (insert_aggregate sid opn hi lo cl v vw ts src db))"
proof (cases "unique_timestamps db \<and> (\<exists>r \<in> set (aggregate_history db). same_key sid ts r)")
  case True
  then show ?thesis by (simp add: insert_aggregate_def)
next
  case False
  show ?thesis
    unfolding insert_aggregate_def if_not_P [OF False] snd_conv
    by (simp add: keeps_rows_def)
qed

lemma keeps_rows_insert_stock: "keeps_rows db (snd (insert_stock symb db))"
  by (simp add: insert_stock_def keeps_rows_def)

lemma keeps_rows_run_statement:
  assumes "\<And>x. keeps_rows x (snd (statement x))"
  shows "keeps_rows db (snd (run_statement statement db))"
proof -
  have "keeps_rows db (snd (statement (db\<lparr>round_trips := Suc (round_trips db)\<rparr>)))"
    using assms [of "db\<lparr>round_trips := Suc (round_trips db)\<rparr>"]
    by (simp add: keeps_rows_def)
  then show ?thesis
    by (simp add: run_statement_def Let_def split: option.splits)
qed

lemma keeps_rows_run:
  "run_statement statement db = (r, db') \<Longrightarrow> (\<And>x. keeps_rows x (snd (statement x)))
     \<Longrightarrow> keeps_rows db db'"
  using keeps_rows_run_statement [of statement db] by simp

lemma keeps_rows_processSymbol: "keeps_rows db (processSymbol symb fetched now db)"
proof (cases fetched)
  case (Inl err)
  then show ?thesis by (simp add: processSymbol_def)
next
  case (Inr stockData)
  obtain r1 db1 where 1: "run_statement (query (select_stock_ids symb)) db = (r1, db1)"
    by (cases "run_statement (query (select_stock_ids symb)) db")
  have g1: "keeps_rows db db1" using keeps_rows_run [OF 1] keeps_rows_query by blast
  show ?thesis
  proof (cases r1)
    case (Inl err)
    then show ?thesis using g1 by (simp add: processSymbol_def Inr collector_executeQuery_def 1)
  next
    case rows: (Inr rows)
    show ?thesis
    proof (cases rows)
      case Nil
      have "keeps_rows db1 (snd (run_statement (insert_stock symb) db1))"
        by (rule keeps_rows_run_statement) (rule keeps_rows_insert_stock)
      then show ?thesis
        using keeps_rows_trans [OF g1]
        by (simp add: processSymbol_def Inr collector_executeQuery_def 1 rows Nil)
    next
      case (Cons existingStock others)
      obtain r2 db2 where 2: "run_statement (query (\<lambda>_. ())) db1 = (r2, db2)"
        by (cases "run_statement (query (\<lambda>_. ())) db1")
      have g2: "keeps_rows db db2"
        using keeps_rows_trans [OF g1 keeps_rows_run [OF 2]] keeps_rows_query by blast
      let ?ip = "insert_price existingStock (last_price stockData) (sd_volume stockData) now column_default"
      obtain r3 db3 where 3: "run_statement ?ip db2 = (r3, db3)"
        by (cases "run_statement ?ip db2")
      have g3: "keeps_rows db db3"
        using keeps_rows_trans [OF g2 keeps_rows_run [OF 3]] keeps_rows_insert_price by blast
      let ?ia = "insert_aggregate existingStock (sd_open_price stockData)
                   (sd_high_price stockData) (sd_low_price stockData)
                   (last_price stockData) (sd_volume stockData) (vwap stockData) now collector"
      have "keeps_rows db3 (snd (run_statement ?ia db3))"
        by (rule keeps_rows_run_statement) (rule keeps_rows_insert_aggregate)
      then have g4: "keeps_rows db (snd (run_statement ?ia db3))"
        using keeps_rows_trans [OF g3] by blast
      show ?thesis
        using g2 g3 g4
        by (simp add: processSymbol_def Inr collector_executeQuery_def 1 rows Cons 2 3
              split: sum.splits)
    qed
  qed
qed

lemma keeps_rows_on_message: "keeps_rows db (on_message msg db)"
proof (cases msg)
  case (Trade symb p v ts)
  obtain r1 db1 where 1: "run_statement (query (select_stock_ids symb)) db = (r1, db1)"
    by (cases "run_statement (query (select_stock_ids symb)) db")
  have g1: "keeps_rows db db1" using keeps_rows_run [OF 1] keeps_rows_query by blast
  have "keeps_rows db1 (snd (run_statement (insert_price sid p v ts websocket) db1))" for sid
    by (rule keeps_rows_run_statement) (rule keeps_rows_insert_price)
  then have "keeps_rows db (snd (run_statement (insert_price sid p v ts websocket) db1))" for sid
    using keeps_rows_trans [OF g1] by blast
  then show ?thesis
    using g1 by (simp add: Trade 1 split: sum.splits list.splits)
next
  case (Bar symb opn hi lo cl v vw startTs)
  obtain r1 db1 where 1: "run_statement (query (select_stock_ids symb)) db = (r1, db1)"
    by (cases "run_statement (query (select_stock_ids symb)) db")
  have g1: "keeps_rows db db1" using keeps_rows_run [OF 1] keeps_rows_query by blast
  have "keeps_rows db1 (snd (run_statement (insert_aggregate sid opn hi lo cl v vw startTs websocket) db1))" for sid
    by (rule keeps_rows_run_statement) (rule keeps_rows_insert_aggregate)
  then have "keeps_rows db (snd (run_statement (insert_aggregate sid opn hi lo cl v vw startTs websocket) db1))" for sid
    using keeps_rows_trans [OF g1] by blast
  then show ?thesis
    using g1 by (simp add: Bar 1 split: sum.splits list.splits)
qed simp_all

lemma keeps_rows_messages: "keeps_rows db (fold on_message msgs db)"
proof (induction msgs arbitrary: db)
  case Nil
  then show ?case by simp
next
  case (Cons msg msgs)
  show ?case
    using keeps_rows_trans [OF keeps_rows_on_message [of db msg] Cons.IH [of "on_message msg db"]] by simp
qed

lemma keeps_rows_collector:
  assumes "collector_write x"
  shows "keeps_rows w (apply_write x w)"
  using assms by (cases x) (simp_all add: keeps_rows_messages keeps_rows_processSymbol)

lemma keeps_rows_collectors:
  assumes "list_all collector_write writes"
  shows "keeps_rows w (fold apply_write writes w)"
  using assms
proof (induction writes arbitrary: w)
  case Nil
  then show ?case by simp
next
  case (Cons x writes)
  have 1: "keeps_rows w (apply_write x w)"
    using Cons.prems by (simp add: keeps_rows_collector)
  have 2: "keeps_rows (apply_write x w) (fold apply_write writes (apply_write x w))"
    using Cons.prems by (simp add: Cons.IH)
  show ?case using keeps_rows_trans [OF 1 2] by simp
qed

lemma one_row_per_key:
  assumes "keys_unique rows" and "r \<in> set rows"
  shows "filter (same_key (stock_id r) (timestamp r)) rows = [r]"
  using assms
proof (induction rows)
  case Nil
  then show ?case by simp
next
  case (Cons x xs)
  have d: "row_key x \<notin> row_key ` set xs" "keys_unique xs"
    using Cons.prems(1) by (simp_all add: keys_unique_def)
  have same: "same_key (stock_id r) (timestamp r) y \<longleftrightarrow> row_key y = row_key r" for y
    by (auto simp: same_key_def row_key_def)
  show ?case
  proof (cases "r \<in> set xs")
    case True
    then have "row_key x \<noteq> row_key r" using d(1) by force
    then show ?thesis using Cons.IH [OF d(2) True] by (simp add: same)
  next
    case False
    then have e: "r = x" using Cons.prems(2) by simp
    have n: "filter (same_key (stock_id x) (timestamp x)) xs = []"
      using d(1) by (auto simp: filter_empty_conv same_key_def row_key_def image_iff)
    have "same_key (stock_id x) (timestamp x) x" by (simp add: same_key_def)
    then show ?thesis unfolding e by (simp add: n)
  qed
qed

lemma streamed_world_rows:
  "unique_timestamps streamed_world"
  "price_history streamed_world =
     [example_point 1 0, example_point 2 300000, example_point 3 1800000,
      \<lparr>row_id = 4, stock_id = 1, timestamp = 10, source = websocket, volume = 5, price = 100\<rparr>]"
  by (simp_all add: streamed_world_def example_trade_def example_world_def run_statement_def
      query_def select_stock_ids_def insert_price_def same_key_def example_point_def Let_def)


text \<open>
  Claim C1, as amended. The history tables declare the unique key over
  \<^verbatim>\<open>(stock_id, timestamp)\<close>, and no two rows of \<^verbatim>\<open>price_history\<close> have the same key.
  Then after any sequence of writes by the streaming collector, the polling collector and
  backfill, whatever round trips fail, no two rows of \<^verbatim>\<open>price_history\<close> have the same
  key, and the rows that were there are still there, in place, with their id, stock,
  timestamp and source. The collectors insert and never update: after writes of the two
  collectors alone, the only row with the key of a row that was there is that row, with its
  price. So a streaming point at timestamp 10 with price 100 followed by a polling point at
  timestamp 10 with price 101 leaves exactly one row at timestamp 10, with price 100.
\<close>

theorem writes_keep_one_row_per_key:
  assumes uniq: "unique_timestamps w" and keys: "keys_unique (price_history w)"
  shows "keys_unique (price_history (fold apply_write writes w))
    \<and> prefix (map row_identity (price_history w))
         (map row_identity (price_history (fold apply_write writes w)))
    \<and> (list_all collector_write writes \<longrightarrow>
         (\<forall>r \<in> set (price_history w).
            prices_at (stock_id r) (timestamp r) (fold apply_write writes w) = [price r]))"
proof -
  let ?w' = "fold apply_write writes w"
  have g: "grows w ?w'" by (rule grows_writes)
  have k: "keys_unique (price_history ?w')"
    using g uniq keys by (simp add: grows_def)
  have i: "prefix (map row_identity (price_history w)) (map row_identity (price_history ?w'))"
    using g by (simp add: grows_def)
  have f: "prices_at (stock_id r) (timestamp r) ?w' = [price r]"
    if c: "list_all collector_write writes" and r: "r \<in> set (price_history w)" for r
  proof -
    have "prefix (price_history w) (price_history ?w')"
      using keeps_rows_collectors [OF c, of w] by (simp add: keeps_rows_def)
    then have "r \<in> set (price_history ?w')"
      using r set_mono_prefix by blast
    then show ?thesis
      using one_row_per_key [OF k] by (simp add: prices_at_def)
  qed
  show ?thesis using k i f by blast
qed

theorem writes_keep_one_row_per_key_witness:
  "unique_timestamps streamed_world
   \<and> keys_unique (price_history streamed_world)
   \<and> list_all collector_write [example_poll]
   \<and> map timestamp (price_history streamed_world) = [0, 300000, 1800000, 10]
   \<and> keys_unique (price_history (fold apply_write [example_poll] streamed_world))
   \<and> prices_at 1 10 (fold apply_write [example_poll] streamed_world) = [100]"
proof -
  let ?r = "\<lparr>row_id = 4, stock_id = 1, timestamp = 10, source = websocket, volume = 5,
             price = 100\<rparr> :: price_row"
  have k: "keys_unique (price_history streamed_world)"
    by (simp add: streamed_world_rows(2) keys_unique_def row_key_def example_point_def)
  have c: "list_all collector_write [example_poll]"
    by (simp add: example_poll_def)
  have t: "map timestamp (price_history streamed_world) = [0, 300000, 1800000, 10]"
    by (simp add: streamed_world_rows(2) example_point_def)
  have r: "?r \<in> set (price_history streamed_world)"
    by (simp add: streamed_world_rows(2))
  note a = writes_keep_one_row_per_key [OF streamed_world_rows(1) k, of "[example_poll]"]
  have "prices_at (stock_id ?r) (timestamp ?r) (fold apply_write [example_poll] streamed_world)
      = [price ?r]"
    using a c r by blast
  then have p: "prices_at 1 10 (fold apply_write [example_poll] streamed_world) = [100]"
    by simp
  show ?thesis
    using streamed_world_rows(1) k c t a p by blast
qed


text \<open>
  The claim as first stated expects one row with price 101. On the example store the polling
  insert is refused and the row keeps price 100; on the same store without the unique key
  both rows are there.
\<close>

theorem writes_keep_one_row_per_key_counterexample:
  "prices_at 1 10 (fold apply_write [Streaming [example_trade], example_poll] example_world)
     = [100]
   \<and> prices_at 1 10
       (fold apply_write [Streaming [example_trade], example_poll]
          (example_world\<lparr>unique_timestamps := False\<rparr>))
     = [100, 101]"
  by (simp add: example_poll_def example_trade_def example_stock_data_def example_world_def
      processSymbol_def collector_executeQuery_def run_statement_def query_def
      select_stock_ids_def insert_price_def insert_aggregate_def same_key_def example_point_def
      prices_at_def Let_def)

end
